theory Spec2Isabelle
  imports Complex_Main "HOL-Library.Word" "HOL-Library.Sublist"
begin

section \<open>JavaScript strings\<close>

text \<open>
  A JavaScript string is a sequence of UTF-16 code units; \<open>length\<close>, indexing,
  \<open>substring\<close>, \<open>split\<close>, \<open>trim\<close> and a regular expression without the \<open>u\<close> flag
  all work on code units. A code unit is a 16-bit word, a string a list of them.
\<close>

type_synonym jschar = "16 word"
type_synonym jsstring = "jschar list"

definition js :: "string \<Rightarrow> jsstring" where
  "js s = map of_char s"

abbreviation SP :: jschar where "SP \<equiv> 0x20"
abbreviation LF :: jschar where "LF \<equiv> 0x0A"

text \<open>
  The code units that \<open>String.prototype.trim\<close>, \<open>trimStart\<close> and the regular-expression
  class \<open>\s\<close> treat as white space: ECMAScript's WhiteSpace and LineTerminator.
\<close>

definition isWhiteSpace :: "jschar \<Rightarrow> bool" where
  "isWhiteSpace c \<longleftrightarrow>
     c = 0x09 \<or> c = 0x0A \<or> c = 0x0B \<or> c = 0x0C \<or> c = 0x0D \<or> c = 0x20 \<or> c = 0xA0 \<or>
     c = 0x1680 \<or> (0x2000 \<le> c \<and> c \<le> 0x200A) \<or> c = 0x2028 \<or> c = 0x2029 \<or>
     c = 0x202F \<or> c = 0x205F \<or> c = 0x3000 \<or> c = 0xFEFF"

definition trimStart :: "jsstring \<Rightarrow> jsstring" where
  "trimStart s = dropWhile isWhiteSpace s"

definition trimEnd :: "jsstring \<Rightarrow> jsstring" where
  "trimEnd s = rev (dropWhile isWhiteSpace (rev s))"

definition trim :: "jsstring \<Rightarrow> jsstring" where
  "trim s = trimEnd (trimStart s)"

section \<open>JavaScript numbers\<close>

text \<open>
  A Number is a double: a finite value, \<open>NaN\<close>, or one of the two infinities. A finite
  double is a rational number. The code modelled here compares a Number with a length,
  uses it as an index and as the end of \<open>substring\<close>, and tests its truth value; none
  of these rounds, so a finite Number is taken as the rational it is.
\<close>

datatype JSNumber = Finite rat | NaN | PosInfinity | NegInfinity

text \<open>\<open>ToBoolean\<close> of a Number: \<open>0\<close> and \<open>NaN\<close> are falsy.\<close>

fun truthyNumber :: "JSNumber \<Rightarrow> bool" where
  "truthyNumber (Finite q) = (q \<noteq> 0)"
| "truthyNumber NaN = False"
| "truthyNumber PosInfinity = True"
| "truthyNumber NegInfinity = True"

text \<open>
  The comparisons \<open>n <= m\<close> and \<open>n > m\<close> of a length \<open>n\<close> with a Number \<open>m\<close>; both are
  false when \<open>m\<close> is \<open>NaN\<close>.
\<close>

fun lengthLe :: "nat \<Rightarrow> JSNumber \<Rightarrow> bool" where
  "lengthLe n (Finite q) = (of_nat n \<le> q)"
| "lengthLe n NaN = False"
| "lengthLe n PosInfinity = True"
| "lengthLe n NegInfinity = False"

fun lengthGt :: "nat \<Rightarrow> JSNumber \<Rightarrow> bool" where
  "lengthGt n (Finite q) = (of_nat n > q)"
| "lengthGt n NaN = False"
| "lengthGt n PosInfinity = False"
| "lengthGt n NegInfinity = True"

text \<open>
  \<open>text[m]\<close> reads the property whose key is \<open>ToString(m)\<close>. A string has such a
  property when \<open>m\<close> is an integer from \<open>0\<close> to \<open>length - 1\<close>; for any other Number the
  value is \<open>undefined\<close>. \<open>arrayIndex m\<close> is the index \<open>m\<close> names, if it is a non-negative
  integer.
\<close>

fun arrayIndex :: "JSNumber \<Rightarrow> nat option" where
  "arrayIndex (Finite q) = (if 0 \<le> q \<and> of_int \<lfloor>q\<rfloor> = q then Some (nat \<lfloor>q\<rfloor>) else None)"
| "arrayIndex _ = None"

text \<open>
  \<open>text.substring(0, m)\<close>: the end is converted by \<open>ToIntegerOrInfinity\<close> (\<open>NaN\<close> gives
  \<open>0\<close>, a fraction is cut off) and clamped to the range from \<open>0\<close> to the length.
\<close>

fun substring0 :: "jsstring \<Rightarrow> JSNumber \<Rightarrow> jsstring" where
  "substring0 text (Finite q) = take (nat \<lfloor>q\<rfloor>) text"
| "substring0 text NaN = []"
| "substring0 text PosInfinity = text"
| "substring0 text NegInfinity = []"

section \<open>Snapshot truncation (\<open>_truncateAtWordBoundary\<close>)\<close>

text \<open>
  The backwards loop \<open>for (let i = maxLength - 1; i >= 0; i--)\<close>: \<open>scanBack text n d\<close>
  runs it from \<open>i = n - 1\<close> and yields the first index holding a space or a line
  break, or \<open>d\<close> (the value \<open>truncateIndex\<close> had before the loop) when the loop
  ends without a \<open>break\<close>.
\<close>

fun scanBack :: "jsstring \<Rightarrow> nat \<Rightarrow> nat \<Rightarrow> nat" where
  "scanBack text 0 d = d"
| "scanBack text (Suc i) d =
     (if text ! i = SP \<or> text ! i = LF then i else scanBack text i d)"

text \<open>
  \<open>maxLength\<close> is a Number. The condition \<open>text[maxLength] && ...\<close> holds only when
  \<open>maxLength\<close> names an element of the text (a one-character string, which is truthy);
  the loop then runs over indices below it. In every other case \<open>truncateIndex\<close> stays
  \<open>maxLength\<close>.
\<close>

definition truncateAtWordBoundary :: "jsstring \<Rightarrow> JSNumber \<Rightarrow> jsstring" where
  "truncateAtWordBoundary text maxLength =
     (if lengthLe (length text) maxLength then text
      else
        let truncateIndex =
              (case arrayIndex maxLength of
                 Some n \<Rightarrow>
                   if n < length text \<and> text ! n \<noteq> SP \<and> text ! n \<noteq> LF
                   then let i = scanBack text n n
                        in Finite (of_nat (if n - i > 20 then n else i))
                   else maxLength
               | None \<Rightarrow> maxLength);
            result = trim (substring0 text truncateIndex)
        in if lengthGt (length result) maxLength then substring0 result maxLength else result)"

text \<open>A word boundary of the truncation: a space or a line break.\<close>

definition isBoundary :: "jschar \<Rightarrow> bool" where
  "isBoundary c \<longleftrightarrow> c = SP \<or> c = LF"

section \<open>Selector alternatives (\<open>resolveFirstElement\<close>, \<open>resolveDragElements\<close>)\<close>

text \<open>\<open>Array.prototype.join\<close> on strings.\<close>

fun joinWith :: "jsstring \<Rightarrow> jsstring list \<Rightarrow> jsstring" where
  "joinWith sep [] = []"
| "joinWith sep [x] = x"
| "joinWith sep (x # y # ys) = x @ sep @ joinWith sep (y # ys)"

text \<open>
  The two fields of a \<open>SelectorResolutionResult\<close> that the helpers read. Both are
  optional: a locator is an object (truthy when present), the error a string.
\<close>

record 'loc SelectorResolutionResult =
  locator :: "'loc option"
  error :: "jsstring option"

text \<open>JavaScript truthiness of an optional string: present and not empty.\<close>

definition truthy :: "jsstring option \<Rightarrow> bool" where
  "truthy e = (case e of None \<Rightarrow> False | Some s \<Rightarrow> s \<noteq> [])"

text \<open>\<open>r.error || 'Unknown error'\<close>\<close>

definition errorText :: "'loc SelectorResolutionResult \<Rightarrow> jsstring" where
  "errorText r = (case error r of None \<Rightarrow> js ''Unknown error''
                  | Some s \<Rightarrow> if s \<noteq> [] then s else js ''Unknown error'')"

text \<open>The filter predicate \<open>(r) => r.locator && !r.error\<close>.\<close>

definition successful :: "'loc SelectorResolutionResult \<Rightarrow> bool" where
  "successful r \<longleftrightarrow> locator r \<noteq> None \<and> \<not> truthy (error r)"

text \<open>
  \<open>resolveFirstElement\<close> after \<open>await tab.resolveElementLocators(selectors)\<close> has
  returned \<open>resolutionResults\<close>, one result for each selector in the caller's order
  (the resolver is the driver-side service; a rejection of that call is not caught and
  reaches the caller as it is). \<open>Inl\<close> is the message of the thrown \<open>Error\<close>, \<open>Inr\<close>
  the value of \<open>successfulResults[0].locator\<close>.
\<close>

definition resolveFirstElement ::
    "'loc SelectorResolutionResult list \<Rightarrow> jsstring \<Rightarrow> jsstring + 'loc option" where
  "resolveFirstElement resolutionResults errorMessage =
     (let successfulResults = filter successful resolutionResults
      in case successfulResults of
           [] \<Rightarrow> (let errors = joinWith (js '', '') (map errorText resolutionResults)
                  in Inl (errorMessage @ js '': '' @ errors))
         | r # _ \<Rightarrow> Inr (locator r))"

definition resolveDragElements ::
    "'loc SelectorResolutionResult list \<Rightarrow> 'loc SelectorResolutionResult list
       \<Rightarrow> jsstring + ('loc option \<times> 'loc option)" where
  "resolveDragElements startResults endResults =
     (let startSuccessful = filter successful startResults;
          endSuccessful = filter successful endResults
      in case startSuccessful of
           [] \<Rightarrow> (let errors = joinWith (js '', '') (map errorText startResults)
                  in Inl (js ''Failed to resolve start element selectors: '' @ errors))
         | s # _ \<Rightarrow>
            (case endSuccessful of
               [] \<Rightarrow> (let errors = joinWith (js '', '') (map errorText endResults)
                      in Inl (js ''Failed to resolve end element selectors: '' @ errors))
             | e # _ \<Rightarrow> Inr (locator s, locator e)))"

text \<open>The default of the parameter \<open>errorMessage\<close>.\<close>

definition defaultErrorMessage :: jsstring where
  "defaultErrorMessage = js ''Failed to resolve element selectors''"


section \<open>Landmark extraction (\<open>_extractPartialSnapshot\<close>)\<close>

text \<open>\<open>String.prototype.split\<close> at a one-character separator.\<close>

fun split :: "jschar \<Rightarrow> jsstring \<Rightarrow> jsstring list" where
  "split sep [] = [[]]"
| "split sep (c # cs) =
     (if c = sep then [] # split sep cs
      else case split sep cs of
             [] \<Rightarrow> [[c]]
           | l # ls \<Rightarrow> (c # l) # ls)"

text \<open>The own properties of the object literal \<open>selectorToRole\<close>, in its order.\<close>

definition selectorToRole :: "(jsstring \<times> jsstring) list" where
  "selectorToRole =
     [(js ''main'', js ''main''),
      (js ''header'', js ''banner''),
      (js ''footer'', js ''contentinfo''),
      (js ''nav'', js ''navigation''),
      (js ''aside'', js ''complementary''),
      (js ''section'', js ''region''),
      (js ''article'', js ''article'')]"

text \<open>\<open>selectorToRole[selector] ?? selector\<close>\<close>

definition expectedRoleOf :: "jsstring \<Rightarrow> jsstring" where
  "expectedRoleOf selector =
     (case map_of selectorToRole selector of Some role \<Rightarrow> role | None \<Rightarrow> selector)"

text \<open>\<open>line.length - line.trimStart().length\<close>\<close>

definition indentOf :: "jsstring \<Rightarrow> int" where
  "indentOf line = int (length line) - int (length (trimStart line))"

text \<open>
  \<open>rolePattern.test(trimmedLine)\<close> for the pattern
  \<^verbatim>\<open>^- ROLE\s*(?:\[[^\]]*\])*\s*:?\<close>, where \<open>ROLE\<close> is the expected role spliced into
  the source of the pattern. For a role made of letters the pattern reads: the literal
  \<open>- ROLE\<close> at the start, then white space, bracketed groups, white space and a colon,
  each of which may be absent. The test is not anchored at the end, so it succeeds
  exactly when the trimmed line starts with \<open>- ROLE\<close>.
\<close>

definition rolePatternTest :: "jsstring \<Rightarrow> jsstring \<Rightarrow> bool" where
  "rolePatternTest expectedRole trimmedLine \<longleftrightarrow> prefix (js ''- '' @ expectedRole) trimmedLine"

text \<open>
  The loop over the lines, with its variables \<open>capturing\<close>, \<open>captureIndent\<close> and
  \<open>capturedLines\<close>; the result is \<open>capturedLines\<close> when the loop ends or breaks.
\<close>

fun captureLoop ::
    "jsstring \<Rightarrow> bool \<Rightarrow> int \<Rightarrow> jsstring list \<Rightarrow> jsstring list \<Rightarrow> jsstring list" where
  "captureLoop expectedRole capturing captureIndent capturedLines [] = capturedLines"
| "captureLoop expectedRole capturing captureIndent capturedLines (line # lines) =
     (let indent = indentOf line;
          trimmedLine = trim line
      in if \<not> capturing \<and> rolePatternTest expectedRole trimmedLine
         then captureLoop expectedRole True indent (capturedLines @ [line]) lines
         else if capturing
         then (if indent > captureIndent
               then captureLoop expectedRole capturing captureIndent (capturedLines @ [line]) lines
               else capturedLines)
         else captureLoop expectedRole capturing captureIndent capturedLines lines)"

text \<open>The function mapped over the captured lines.\<close>

definition normalizeLine :: "int \<Rightarrow> jsstring \<Rightarrow> jsstring" where
  "normalizeLine minIndent line =
     (if trim line = [] then line
      else let currentIndent = indentOf line;
               newIndent = max 0 (currentIndent - minIndent)
           in replicate (nat newIndent) SP @ trimStart line)"

definition extractPartialSnapshot :: "jsstring \<Rightarrow> jsstring \<Rightarrow> jsstring" where
  "extractPartialSnapshot fullSnapshot selector =
     (let lines = split LF fullSnapshot;
          expectedRole = expectedRoleOf selector;
          capturedLines = captureLoop expectedRole False (- 1) [] lines
      in case capturedLines of
           [] \<Rightarrow> fullSnapshot
         | first # _ \<Rightarrow>
             (let minIndent = indentOf first;
                  normalizedLines = map (normalizeLine minIndent) capturedLines
              in joinWith [LF] normalizedLines))"

text \<open>A line matches the role when the pattern accepts the trimmed line.\<close>

definition roleMatches :: "jsstring \<Rightarrow> jsstring \<Rightarrow> bool" where
  "roleMatches expectedRole line \<longleftrightarrow> rolePatternTest expectedRole (trim line)"


section \<open>The tab session (\<open>class Tab\<close>)\<close>

text \<open>
  Objects of the driver (requests, responses, dialogs, file choosers, downloads) are
  opaque to the session, which only stores and compares them: they are handles.
\<close>

type_synonym handle = nat

record ConsoleMessage =
  msgType :: "jsstring option"
  msgText :: jsstring

text \<open>
  A \<open>ModalState\<close> is a tagged union; \<open>modalType\<close> is its \<open>type\<close> field and
  \<open>description\<close> the text built where the state is created.
\<close>

datatype ModalState =
    FileChooserState handle
  | DialogState jsstring jsstring handle

fun modalType :: "ModalState \<Rightarrow> jsstring" where
  "modalType (FileChooserState c) = js ''fileChooser''"
| "modalType (DialogState ty message d) = js ''dialog''"

fun description :: "ModalState \<Rightarrow> jsstring" where
  "description (FileChooserState c) = js ''File chooser''"
| "description (DialogState ty message d) =
     js [CHR 0x22] @ ty @ js [CHR 0x22] @ js '' dialog with message '' @
     js [CHR 0x22] @ message @ js [CHR 0x22]"

record DownloadEntry =
  download :: handle
  finished :: bool
  outputFile :: jsstring

record TabSnapshot =
  url :: jsstring
  title :: jsstring
  ariaSnapshot :: jsstring
  modalStates :: "ModalState list"
  consoleMessages :: "ConsoleMessage list"
  downloads :: "DownloadEntry list"

text \<open>
  What the session calls on the page, in the order of the calls. The log is not a field
  of the class: it records the effect of the session on the driver.
\<close>

datatype DriverCall =
    SnapshotForAI
  | PageTitle
  | WaitForDownloadEvent
  | Goto jsstring
  | WaitForLoadState int

text \<open>
  The fields of \<open>Tab\<close> (a private field \<open>_x\<close> of the class is \<open>tab_x\<close> here), then the
  state of the page the session reads with \<open>page.url()\<close>, the number of times the
  callback \<open>_onPageClose\<close> of the owning context has been invoked, and the log of calls
  on the page. A watcher is the promise made by \<open>_createNavigationPromise\<close>: the list
  \<open>tab_watchers\<close> holds, for each promise made so far, whether it has resolved, and
  \<open>navigationPromise\<close> is the index of the current one.
\<close>

record Tab =
  tab_lastTitle :: jsstring
  tab_consoleMessages :: "ConsoleMessage list"
  tab_recentConsoleMessages :: "ConsoleMessage list"
  tab_requests :: "handle \<rightharpoonup> handle option"
  tab_modalStates :: "ModalState list"
  tab_downloads :: "DownloadEntry list"
  tab_isNavigating :: bool
  lastNavigationStart :: int
  navigationPromise :: "nat option"
  tab_watchers :: "bool list"
  tab_listeners :: "nat list"
  pageUrl :: jsstring
  pageCloseNotified :: nat
  driverCalls :: "DriverCall list"

text \<open>The state a constructor leaves, for a page at \<open>u\<close>.\<close>

definition newTab :: "jsstring \<Rightarrow> Tab" where
  "newTab u =
     \<lparr>tab_lastTitle = js ''about:blank'', tab_consoleMessages = [], tab_recentConsoleMessages = [],
      tab_requests = Map.empty, tab_modalStates = [], tab_downloads = [],
      tab_isNavigating = False, lastNavigationStart = 0, navigationPromise = None,
      tab_watchers = [], tab_listeners = [], pageUrl = u, pageCloseNotified = 0,
      driverCalls = []\<rparr>"

text \<open>
  The constant object \<open>TIMEOUTS\<close> of \<open>config/constants\<close>: its values are parameters.
\<close>

record Timeouts =
  DEFAULT_PAGE_TIMEOUT :: int
  LONG_DELAY :: int
  SHORT_DELAY :: int
  LOAD_STATE_TIMEOUT :: int

record NavigationTimeouts =
  navigationTimeout :: int
  checkInterval :: int
  staleTimeout :: int

definition getNavigationTimeouts :: "Timeouts \<Rightarrow> NavigationTimeouts" where
  "getNavigationTimeouts T =
     \<lparr>navigationTimeout = DEFAULT_PAGE_TIMEOUT T, checkInterval = 100, staleTimeout = 10000\<rparr>"

subsection \<open>Modal states and their listeners\<close>

text \<open>
  \<open>setModalState\<close> pushes the state and emits the event \<open>modalState\<close>. The listeners of
  that event are one-shot (\<open>once\<close>): emitting removes each and calls it with the state.
  The emission, the state with the listeners called, is returned with the new tab.
\<close>

type_synonym emission = "ModalState \<times> nat list"

definition setModalState :: "ModalState \<Rightarrow> Tab \<Rightarrow> Tab \<times> emission" where
  "setModalState modalState t =
     (t\<lparr>tab_modalStates := tab_modalStates t @ [modalState], tab_listeners := []\<rparr>,
      (modalState, tab_listeners t))"

text \<open>
  \<open>clearModalState\<close> keeps the states that are not the object it is given (\<open>!==\<close>
  compares identities, not contents). Every state of the list is an object of its own,
  made where \<open>setModalState\<close> is called, so the object is named here by its position
  \<open>i\<close> in the list; an object that is not in the list is a position past its end, and
  nothing is removed.
\<close>

definition clearModalState :: "nat \<Rightarrow> Tab \<Rightarrow> Tab" where
  "clearModalState i t =
     t\<lparr>tab_modalStates := take i (tab_modalStates t) @ drop (Suc i) (tab_modalStates t)\<rparr>"

definition once :: "nat \<Rightarrow> Tab \<Rightarrow> Tab" where
  "once listener t = t\<lparr>tab_listeners := tab_listeners t @ [listener]\<rparr>"

definition off :: "nat \<Rightarrow> Tab \<Rightarrow> Tab" where
  "off listener t = t\<lparr>tab_listeners := remove1 listener (tab_listeners t)\<rparr>"

subsection \<open>Artifacts\<close>

definition clearCollectedArtifacts :: "Tab \<Rightarrow> Tab" where
  "clearCollectedArtifacts t =
     t\<lparr>tab_consoleMessages := [], tab_recentConsoleMessages := [], tab_requests := Map.empty\<rparr>"

definition handleConsoleMessage :: "ConsoleMessage \<Rightarrow> Tab \<Rightarrow> Tab" where
  "handleConsoleMessage message t =
     t\<lparr>tab_consoleMessages := tab_consoleMessages t @ [message],
       tab_recentConsoleMessages := tab_recentConsoleMessages t @ [message]\<rparr>"

definition onClose :: "Tab \<Rightarrow> Tab" where
  "onClose t =
     (let t1 = clearCollectedArtifacts t
      in t1\<lparr>pageCloseNotified := pageCloseNotified t1 + 1\<rparr>)"

subsection \<open>Navigation state\<close>

definition handleNavigationStart :: "int \<Rightarrow> Tab \<Rightarrow> Tab" where
  "handleNavigationStart now t =
     t\<lparr>tab_isNavigating := True, lastNavigationStart := now,
       navigationPromise := Some (length (tab_watchers t)),
       tab_watchers := tab_watchers t @ [False]\<rparr>"

definition handleNavigationComplete :: "Tab \<Rightarrow> Tab" where
  "handleNavigationComplete t = t\<lparr>tab_isNavigating := False\<rparr>"

text \<open>
  One run of \<open>checkComplete\<close> for the watcher \<open>w\<close>, at the time \<open>now\<close> its timer fires:
  the watcher resolves, or its timer is armed again. Only an armed timer fires, so the
  run is that of a watcher that has not resolved.
\<close>

definition checkComplete :: "Timeouts \<Rightarrow> nat \<Rightarrow> int \<Rightarrow> Tab \<Rightarrow> Tab" where
  "checkComplete T w now t =
     (if \<not> tab_isNavigating t then t\<lparr>tab_watchers := (tab_watchers t)[w := True]\<rparr>
      else if now - lastNavigationStart t > navigationTimeout (getNavigationTimeouts T)
      then t\<lparr>tab_isNavigating := False, tab_watchers := (tab_watchers t)[w := True]\<rparr>
      else t)"

definition isNavigating :: "Timeouts \<Rightarrow> int \<Rightarrow> Tab \<Rightarrow> bool \<times> Tab" where
  "isNavigating T now t =
     (let isStale = now - lastNavigationStart t > staleTimeout (getNavigationTimeouts T);
          t1 = (if isStale \<and> tab_isNavigating t then t\<lparr>tab_isNavigating := False\<rparr> else t)
      in (tab_isNavigating t1, t1))"

subsection \<open>The events of the page\<close>

text \<open>
  The listeners the constructor registers on the page, one constructor for each. A
  console message and a page error arrive converted (\<open>messageToConsoleMessage\<close>,
  \<open>pageErrorToConsoleMessage\<close>). \<open>_downloadStarted\<close> runs in three steps separated by
  waits: the entry is pushed once the output file is known (\<open>DownloadStarted\<close>), and
  marked finished once it is saved (\<open>DownloadSaved\<close>, by its index). \<open>FrameNavigated\<close>
  carries whether the frame is the main frame, the clock and the new url of the page.
\<close>

datatype PageEvent =
    ConsoleEvent ConsoleMessage
  | PageErrorEvent ConsoleMessage
  | RequestEvent handle
  | ResponseEvent handle handle
  | CloseEvent
  | FileChooserEvent handle
  | DialogEvent jsstring jsstring handle
  | DownloadStarted DownloadEntry
  | DownloadSaved nat
  | FrameNavigated bool int jsstring
  | LoadEvent
  | DomContentLoaded

text \<open>The modal state an event sets, when it sets one.\<close>

fun modalOf :: "PageEvent \<Rightarrow> ModalState option" where
  "modalOf (FileChooserEvent c) = Some (FileChooserState c)"
| "modalOf (DialogEvent ty message d) = Some (DialogState ty message d)"
| "modalOf _ = None"

fun consoleOf :: "PageEvent \<Rightarrow> ConsoleMessage option" where
  "consoleOf (ConsoleEvent m) = Some m"
| "consoleOf (PageErrorEvent m) = Some m"
| "consoleOf _ = None"

text \<open>
  \<open>handleEvent\<close> returns the new state and, when the event sets a modal state, the
  emission.
\<close>

fun handleEvent :: "PageEvent \<Rightarrow> Tab \<Rightarrow> Tab \<times> emission option" where
  "handleEvent (ConsoleEvent m) t = (handleConsoleMessage m t, None)"
| "handleEvent (PageErrorEvent m) t = (handleConsoleMessage m t, None)"
| "handleEvent (RequestEvent r) t = (t\<lparr>tab_requests := (tab_requests t)(r \<mapsto> None)\<rparr>, None)"
| "handleEvent (ResponseEvent r resp) t =
     (t\<lparr>tab_requests := (tab_requests t)(r \<mapsto> Some resp)\<rparr>, None)"
| "handleEvent CloseEvent t = (onClose t, None)"
| "handleEvent (FileChooserEvent c) t =
     (let (t1, em) = setModalState (FileChooserState c) t in (t1, Some em))"
| "handleEvent (DialogEvent ty message d) t =
     (let (t1, em) = setModalState (DialogState ty message d) t in (t1, Some em))"
| "handleEvent (DownloadStarted entry) t =
     (t\<lparr>tab_downloads := tab_downloads t @ [entry]\<rparr>, None)"
| "handleEvent (DownloadSaved i) t =
     (if i < length (tab_downloads t)
      then t\<lparr>tab_downloads := (tab_downloads t)[i := (tab_downloads t ! i)\<lparr>finished := True\<rparr>]\<rparr>
      else t, None)"
| "handleEvent (FrameNavigated main now u) t =
     (if main then handleNavigationStart now (t\<lparr>pageUrl := u\<rparr>) else t, None)"
| "handleEvent LoadEvent t = (handleNavigationComplete t, None)"
| "handleEvent DomContentLoaded t = (t\<lparr>tab_isNavigating := True\<rparr>, None)"

text \<open>A sequence of events, delivered one after the other.\<close>

fun handleEvents :: "PageEvent list \<Rightarrow> Tab \<Rightarrow> Tab" where
  "handleEvents [] t = t"
| "handleEvents (e # es) t = handleEvents es (fst (handleEvent e t))"


section \<open>Racing an action against modal states (\<open>_raceAgainstModalStates\<close>)\<close>

text \<open>
  The scheduler is cooperative: between two suspension points code runs without
  interruption. An asynchronous action is therefore a first segment, run inside the call
  \<open>action()\<close> up to its first \<open>await\<close>, and one segment for each later resumption;
  its promise fulfils when the last segment has run. A segment works on the variables
  \<open>'l\<close> the closure shares with its caller and on the tab; it may end by throwing, which
  rejects the promise of the action: the third component is the message of the error
  thrown, with the variables and the tab as the segment left them.

  What happens while the caller waits is a sequence of ticks, in the order the event loop
  delivers them: an event of the page, the resumption of the action (the driver has
  answered the call it awaits), or the rejection of that call, which rejects the action.
\<close>

type_synonym 'l segment = "'l \<Rightarrow> Tab \<Rightarrow> 'l \<times> Tab \<times> jsstring option"

type_synonym 'l action = "'l segment \<times> 'l segment list"

datatype Tick = Ev PageEvent | Resume | Reject jsstring

text \<open>
  The outcome of the race when it settles: the value or the rejection, the shared
  variables and the tab at that moment, whether the action was started, the segments of
  the action still to run, and the ticks not yet delivered.
\<close>

record 'l Settled =
  outcome :: "jsstring + ModalState list"
  shared :: 'l
  tabAfter :: Tab
  started :: bool
  running :: "'l segment list"
  pending :: "Tick list"

text \<open>A listener identity not registered on the tab: a new closure.\<close>

definition newListener :: "Tab \<Rightarrow> nat" where
  "newListener t = Suc (fold max (tab_listeners t) 0)"

text \<open>
  \<open>Promise.race([action().then(...), promise])\<close> after the first segment has run.
  With no segment left the action has fulfilled: the callback of \<open>then\<close> removes the
  listener and the race yields the empty list. An event of the page that emits
  \<open>modalState\<close> to the listener resolves \<open>promise\<close> with that one state; the action
  keeps its remaining segments. A segment that throws, and a rejected call, reject the
  action and with it the race; the callback of \<open>then\<close> does not run and the listener
  stays. Without a tick left nothing settles: \<open>None\<close>.
\<close>

fun raceLoop ::
    "nat \<Rightarrow> 'l segment list \<Rightarrow> 'l \<Rightarrow> Tab \<Rightarrow> Tick list \<Rightarrow> 'l Settled option" where
  "raceLoop listener [] l t ticks =
     Some \<lparr>outcome = Inr [], shared = l, tabAfter = off listener t, started = True,
           running = [], pending = ticks\<rparr>"
| "raceLoop listener (s # segs) l t [] = None"
| "raceLoop listener (s # segs) l t (Ev e # ticks) =
     (case handleEvent e t of
        (t1, Some (modalState, called)) \<Rightarrow>
          if listener \<in> set called
          then Some \<lparr>outcome = Inr [modalState], shared = l, tabAfter = t1, started = True,
                     running = s # segs, pending = ticks\<rparr>
          else raceLoop listener (s # segs) l t1 ticks
      | (t1, None) \<Rightarrow> raceLoop listener (s # segs) l t1 ticks)"
| "raceLoop listener (s # segs) l t (Resume # ticks) =
     (case s l t of
        (l1, t1, None) \<Rightarrow> raceLoop listener segs l1 t1 ticks
      | (l1, t1, Some e) \<Rightarrow>
          Some \<lparr>outcome = Inl e, shared = l1, tabAfter = t1, started = True,
                running = [], pending = ticks\<rparr>)"
| "raceLoop listener (s # segs) l t (Reject e # ticks) =
     Some \<lparr>outcome = Inl e, shared = l, tabAfter = t, started = True,
           running = [], pending = ticks\<rparr>"

definition raceAgainstModalStates ::
    "'l action \<Rightarrow> 'l \<Rightarrow> Tab \<Rightarrow> Tick list \<Rightarrow> 'l Settled option" where
  "raceAgainstModalStates action l t ticks =
     (if length (tab_modalStates t) \<noteq> 0
      then Some \<lparr>outcome = Inr (tab_modalStates t), shared = l, tabAfter = t, started = False,
                 running = [], pending = ticks\<rparr>
      else
        let listener = newListener t;
            t1 = once listener t
        in case fst action l t1 of
             (l2, t2, None) \<Rightarrow> raceLoop listener (snd action) l2 t2 ticks
           | (l2, t2, Some e) \<Rightarrow>
               Some \<lparr>outcome = Inl e, shared = l2, tabAfter = t2, started = True,
                     running = [], pending = ticks\<rparr>)"

text \<open>
  An action the race has given up waiting for is not cancelled: its remaining segments
  run at the later resumptions, among the events of the page. An action that has thrown
  or was rejected has no segment left.
\<close>

fun background :: "'l segment list \<Rightarrow> 'l \<Rightarrow> Tab \<Rightarrow> Tick list \<Rightarrow> 'l \<times> Tab" where
  "background segs l t [] = (l, t)"
| "background segs l t (Ev e # ticks) = background segs l (fst (handleEvent e t)) ticks"
| "background [] l t (Resume # ticks) = background [] l t ticks"
| "background (s # segs) l t (Resume # ticks) =
     (case s l t of
        (l1, t1, None) \<Rightarrow> background segs l1 t1 ticks
      | (l1, t1, Some e) \<Rightarrow> background [] l1 t1 ticks)"
| "background segs l t (Reject e # ticks) = background [] l t ticks"

text \<open>No segment of the action run over the ticks throws.\<close>

fun unthrown :: "'l segment list \<Rightarrow> 'l \<Rightarrow> Tab \<Rightarrow> Tick list \<Rightarrow> bool" where
  "unthrown segs l t [] = True"
| "unthrown segs l t (Ev e # ticks) = unthrown segs l (fst (handleEvent e t)) ticks"
| "unthrown [] l t (Resume # ticks) = True"
| "unthrown (s # segs) l t (Resume # ticks) =
     (case s l t of
        (l1, t1, None) \<Rightarrow> unthrown segs l1 t1 ticks
      | (l1, t1, Some e) \<Rightarrow> False)"
| "unthrown segs l t (Reject e # ticks) = True"

subsection \<open>\<open>updateTitle\<close>\<close>

text \<open>
  The action of \<open>updateTitle\<close>: it calls \<open>page.title()\<close> and, resumed with the answer
  \<open>answer\<close>, assigns \<open>_lastTitle\<close>.
\<close>

definition updateTitleAction :: "jsstring \<Rightarrow> unit action" where
  "updateTitleAction answer =
     (\<lambda>l t. (l, t\<lparr>driverCalls := driverCalls t @ [PageTitle]\<rparr>, None),
      [\<lambda>l t. (l, t\<lparr>tab_lastTitle := answer\<rparr>, None)])"

subsection \<open>Actions that touch the listeners\<close>

text \<open>
  \<open>Tab\<close> extends \<open>EventEmitter\<close>, so an action can reach the listeners of \<open>modalState\<close>.
  \<open>listeningAction\<close> registers a one-shot listener of its own, as a raced call nested in
  the action does, awaits, and removes it; the variable it shares is the listener.
  \<open>removeAllListenersAction\<close> calls \<open>removeAllListeners(TabEvents.modalState)\<close> and
  awaits.
\<close>

definition listeningAction :: "nat action" where
  "listeningAction =
     (\<lambda>l t. (newListener t, once (newListener t) t, None),
      [\<lambda>l t. (l, off l t, None)])"

definition removeAllListenersAction :: "unit action" where
  "removeAllListenersAction =
     (\<lambda>l t. (l, t\<lparr>tab_listeners := []\<rparr>, None),
      [\<lambda>l t. (l, t, None)])"

subsection \<open>Snapshots (\<open>_captureSnapshotInternal\<close>)\<close>

text \<open>
  The variables the capture shares with its action: \<open>tabSnapshot\<close>, and the values the
  action holds between its two waits (the text of the snapshot, and the url, which the
  object literal reads before it awaits the title).
\<close>

record CaptureVars =
  tabSnapshot :: "TabSnapshot option"
  snapshot :: jsstring
  urlRead :: jsstring

definition noCaptureVars :: CaptureVars where
  "noCaptureVars = \<lparr>tabSnapshot = None, snapshot = [], urlRead = []\<rparr>"

text \<open>
  The call \<open>this._extractPartialSnapshot(result.full, selector)\<close> inside the capture.
  For a landmark name of \<open>selectorToRole\<close> the pattern is made of letters and the call
  returns \<open>extractPartialSnapshot\<close>. For any other selector the text of the selector
  (or of a property the object literal inherits) becomes part of the source of the
  pattern, and what \<open>new RegExp\<close> makes of it, a \<open>SyntaxError\<close> or some test, is the
  engine's: \<open>engine\<close> gives the outcome of the call for those selectors, \<open>Inl\<close> the
  message of the error thrown.
\<close>

type_synonym engine = "jsstring \<Rightarrow> jsstring \<Rightarrow> jsstring + jsstring"

definition extractCall :: "engine \<Rightarrow> jsstring \<Rightarrow> jsstring \<Rightarrow> jsstring + jsstring" where
  "extractCall engine fullSnapshot selector =
     (case map_of selectorToRole selector of
        Some role \<Rightarrow> Inr (extractPartialSnapshot fullSnapshot selector)
      | None \<Rightarrow> engine fullSnapshot selector)"

text \<open>
  \<open>if (selector) ... else ...\<close>: an absent or empty selector is falsy and the full text
  is taken.
\<close>

definition selectedText :: "engine \<Rightarrow> jsstring option \<Rightarrow> jsstring \<Rightarrow> jsstring + jsstring" where
  "selectedText engine selector full =
     (case selector of
        None \<Rightarrow> Inr full
      | Some sel \<Rightarrow> if sel \<noteq> [] then extractCall engine full sel else Inr full)"

text \<open>
  \<open>if (maxLength && snapshot.length > maxLength)\<close>: an absent \<open>maxLength\<close>, \<open>0\<close> and
  \<open>NaN\<close> are falsy.
\<close>

definition limitedText :: "JSNumber option \<Rightarrow> jsstring \<Rightarrow> jsstring" where
  "limitedText maxLength snapshot0 =
     (case maxLength of
        None \<Rightarrow> snapshot0
      | Some m \<Rightarrow> if truthyNumber m \<and> lengthGt (length snapshot0) m
                  then truncateAtWordBoundary snapshot0 m else snapshot0)"

text \<open>
  The action of a capture. \<open>selector\<close> and \<open>maxLength\<close> are optional parameters;
  \<open>full\<close> and \<open>pageTitle\<close> are the answers of the driver to \<open>_snapshotForAI()\<close> and
  to \<open>page.title()\<close>. The second segment throws when the extraction does, before it
  assigns anything.
\<close>

definition captureAction ::
    "engine \<Rightarrow> jsstring option \<Rightarrow> JSNumber option \<Rightarrow> jsstring \<Rightarrow> jsstring
       \<Rightarrow> CaptureVars action" where
  "captureAction engine selector maxLength full pageTitle =
     (\<lambda>l t. (l, t\<lparr>driverCalls := driverCalls t @ [SnapshotForAI]\<rparr>, None),
      [\<lambda>l t.
         (case selectedText engine selector full of
            Inl e \<Rightarrow> (l, t, Some e)
          | Inr snapshot0 \<Rightarrow>
              (l\<lparr>snapshot := limitedText maxLength snapshot0, urlRead := pageUrl t\<rparr>,
               t\<lparr>driverCalls := driverCalls t @ [PageTitle]\<rparr>, None)),
       \<lambda>l t.
         (l\<lparr>tabSnapshot := Some \<lparr>url = urlRead l, title = pageTitle,
                                  ariaSnapshot = snapshot l, modalStates = [],
                                  consoleMessages = [], downloads = tab_downloads t\<rparr>\<rparr>,
          t, None)])"

text \<open>
  The capture returns \<open>None\<close> while the race has not settled, \<open>Inl\<close> when the action was
  rejected before any modal state (the \<open>await\<close> throws), and otherwise the snapshot and
  the tab it leaves. The remaining segments and ticks are returned for the caller's
  future.
\<close>

definition captureSnapshotInternal ::
    "engine \<Rightarrow> jsstring option \<Rightarrow> JSNumber option \<Rightarrow> jsstring \<Rightarrow> jsstring \<Rightarrow> Tab \<Rightarrow> Tick list
       \<Rightarrow> ((jsstring + TabSnapshot) \<times> Tab \<times> CaptureVars Settled) option" where
  "captureSnapshotInternal engine selector maxLength full pageTitle t ticks =
     (case raceAgainstModalStates (captureAction engine selector maxLength full pageTitle)
             noCaptureVars t ticks of
        None \<Rightarrow> None
      | Some r \<Rightarrow>
          (case outcome r of
             Inl e \<Rightarrow> Some (Inl e, tabAfter r, r)
           | Inr modalStates' \<Rightarrow>
               (case tabSnapshot (shared r) of
                  Some snap \<Rightarrow>
                    Some (Inr (snap\<lparr>consoleMessages := tab_recentConsoleMessages (tabAfter r)\<rparr>),
                          (tabAfter r)\<lparr>tab_recentConsoleMessages := []\<rparr>, r)
                | None \<Rightarrow>
                    Some (Inr \<lparr>url = pageUrl (tabAfter r), title = [], ariaSnapshot = [],
                               modalStates = modalStates', consoleMessages = [],
                               downloads = []\<rparr>,
                          tabAfter r, r))))"

definition captureSnapshot ::
    "engine \<Rightarrow> jsstring \<Rightarrow> jsstring \<Rightarrow> Tab \<Rightarrow> Tick list
       \<Rightarrow> ((jsstring + TabSnapshot) \<times> Tab \<times> CaptureVars Settled) option" where
  "captureSnapshot engine = captureSnapshotInternal engine None None"

definition capturePartialSnapshot ::
    "engine \<Rightarrow> jsstring option \<Rightarrow> JSNumber option \<Rightarrow> jsstring \<Rightarrow> jsstring \<Rightarrow> Tab \<Rightarrow> Tick list
       \<Rightarrow> ((jsstring + TabSnapshot) \<times> Tab \<times> CaptureVars Settled) option" where
  "capturePartialSnapshot engine selector maxLength =
     captureSnapshotInternal engine selector maxLength"

subsection \<open>Reading a sequence of ticks\<close>

text \<open>
  A tick adds a modal state when it is a file-chooser or dialog event; \<open>resumes\<close> counts
  the resumptions of the action, \<open>eventsOf\<close> keeps the events of the page.
\<close>

fun addsModal :: "Tick \<Rightarrow> bool" where
  "addsModal (Ev e) = (modalOf e \<noteq> None)"
| "addsModal _ = False"

fun isReject :: "Tick \<Rightarrow> bool" where
  "isReject (Reject e) = True"
| "isReject _ = False"

definition quiet :: "Tick list \<Rightarrow> bool" where
  "quiet ticks \<longleftrightarrow> list_all (\<lambda>k. \<not> addsModal k \<and> \<not> isReject k) ticks"

definition resumes :: "Tick list \<Rightarrow> nat" where
  "resumes ticks = length (filter (\<lambda>k. k = Resume) ticks)"

fun eventsOf :: "Tick list \<Rightarrow> PageEvent list" where
  "eventsOf [] = []"
| "eventsOf (Ev e # ticks) = e # eventsOf ticks"
| "eventsOf (_ # ticks) = eventsOf ticks"

text \<open>A segment that leaves the listeners of the tab as they are.\<close>

definition keepsListeners :: "'l segment \<Rightarrow> bool" where
  "keepsListeners s \<longleftrightarrow> (\<forall>l t. tab_listeners (fst (snd (s l t))) = tab_listeners t)"

subsection \<open>A sequence of captures\<close>

text \<open>
  What the events of the page make of the buffer of recent console messages: a console
  message or page error is appended, the close event empties it, any other event leaves
  it.
\<close>

fun bufferAfter :: "PageEvent list \<Rightarrow> ConsoleMessage list \<Rightarrow> ConsoleMessage list" where
  "bufferAfter [] buf = buf"
| "bufferAfter (ConsoleEvent m # es) buf = bufferAfter es (buf @ [m])"
| "bufferAfter (PageErrorEvent m # es) buf = bufferAfter es (buf @ [m])"
| "bufferAfter (CloseEvent # es) buf = bufferAfter es []"
| "bufferAfter (_ # es) buf = bufferAfter es buf"

text \<open>The console messages and page errors among the ticks, in their order.\<close>

definition consoleTicks :: "Tick list \<Rightarrow> ConsoleMessage list" where
  "consoleTicks ticks = List.map_filter consoleOf (eventsOf ticks)"

text \<open>
  A caller that captures again and again, and clears modal states in between. Each
  capture comes with the answers of the driver and with the ticks delivered from its call
  to the next operation; the ticks it leaves pending are delivered, and an action it
  left running is run, before the next operation starts. The result is the list of the
  snapshots returned. A capture that never returns ends the sequence; a rejected one
  returns no snapshot.
\<close>

datatype SessionOp =
    Capture "jsstring option" "JSNumber option" jsstring jsstring "Tick list"
  | ClearModal nat

fun ticksOf :: "SessionOp \<Rightarrow> Tick list" where
  "ticksOf (Capture selector maxLength full pageTitle ticks) = ticks"
| "ticksOf (ClearModal i) = []"

fun session :: "engine \<Rightarrow> Tab \<Rightarrow> SessionOp list \<Rightarrow> TabSnapshot list" where
  "session engine t [] = []"
| "session engine t (ClearModal i # ops) = session engine (clearModalState i t) ops"
| "session engine t (Capture selector maxLength full pageTitle ticks # ops) =
     (case captureSnapshotInternal engine selector maxLength full pageTitle t ticks of
        None \<Rightarrow> []
      | Some (res, t1, r) \<Rightarrow>
          (let t2 = snd (background (running r) (shared r) t1 (pending r))
           in case res of
                Inl e \<Rightarrow> session engine t2 ops
              | Inr snap \<Rightarrow> snap # session engine t2 ops))"

text \<open>A segment that leaves the buffer of recent console messages as it is.\<close>

definition keepsRecent :: "'l segment \<Rightarrow> bool" where
  "keepsRecent s \<longleftrightarrow>
     (\<forall>l t. tab_recentConsoleMessages (fst (snd (s l t))) = tab_recentConsoleMessages t)"


section \<open>Navigation (\<open>navigate\<close>)\<close>






section \<open>The navigation tracker over time\<close>

text \<open>
  What reaches the navigation state, in the order of the event loop: an event of the
  page, the timer of a watcher firing at a time, a call of \<open>isNavigating()\<close> at a time.
  The times are the values of \<open>Date.now()\<close>.
\<close>

datatype NavOp =
    PageEv PageEvent
  | TimerFires nat int
  | IsNavigatingCall int

fun navStep :: "Timeouts \<Rightarrow> NavOp \<Rightarrow> Tab \<Rightarrow> Tab" where
  "navStep T (PageEv e) t = fst (handleEvent e t)"
| "navStep T (TimerFires w now) t = checkComplete T w now t"
| "navStep T (IsNavigatingCall now) t = snd (isNavigating T now t)"

fun navRun :: "Timeouts \<Rightarrow> NavOp list \<Rightarrow> Tab \<Rightarrow> Tab" where
  "navRun T [] t = t"
| "navRun T (op # ops) t = navRun T ops (navStep T op t)"















section \<open>Properties of the truncation\<close>

lemma length_trim_le: "length (trim s) \<le> length s"
proof -
  have "length (trim s) \<le> length (trimStart s)"
    by (simp add: trim_def trimEnd_def length_dropWhile_le order.trans [OF length_dropWhile_le])
  also have "\<dots> \<le> length s"
    by (simp add: trimStart_def length_dropWhile_le)
  finally show ?thesis .
qed

lemma trim_last: "trim s \<noteq> [] \<Longrightarrow> \<not> isWhiteSpace (last (trim s))"
  unfolding trim_def trimEnd_def
  by (simp add: last_rev hd_dropWhile)

lemma trim_no_ws: "\<forall>c\<in>set s. \<not> isWhiteSpace c \<Longrightarrow> trim s = s"
proof -
  assume a: "\<forall>c\<in>set s. \<not> isWhiteSpace c"
  have d: "dropWhile isWhiteSpace xs = xs" if "\<forall>c\<in>set xs. \<not> isWhiteSpace c" for xs
    using that by (cases xs) auto
  show ?thesis using a by (simp add: trim_def trimEnd_def trimStart_def d)
qed

lemma scanBack_le: "scanBack text n n' \<le> max n n'"
  by (induction n) auto

lemma scanBack_found:
  "b < n \<Longrightarrow> isBoundary (text ! b) \<Longrightarrow> \<forall>j. b < j \<and> j < n \<longrightarrow> \<not> isBoundary (text ! j)
     \<Longrightarrow> scanBack text n d = b"
proof (induction n)
  case 0 then show ?case by simp
next
  case (Suc n)
  show ?case
  proof (cases "b = n")
    case True with Suc.prems show ?thesis by (simp add: isBoundary_def)
  next
    case False
    with Suc.prems have "b < n" by simp
    moreover from Suc.prems False have "\<not> isBoundary (text ! n)" by simp
    ultimately show ?thesis using Suc by (simp add: isBoundary_def)
  qed
qed

lemma scanBack_none:
  "\<forall>j<n. \<not> isBoundary (text ! j) \<Longrightarrow> scanBack text n d = d"
  by (induction n) (auto simp: isBoundary_def)

lemma trunc_nat:
  assumes "n < length text"
  shows "truncateAtWordBoundary text (Finite (of_nat n)) =
     trim (take (if isBoundary (text ! n) then n
                 else let i = scanBack text n n
                    in if n - i > 20 then n else i) text)"
proof -
  let ?ti = "(if isBoundary (text ! n) then n
                 else let i = scanBack text n n
                    in if n - i > 20 then n else i)"
  have "?ti \<le> n"
    using scanBack_le [of "text" n n] by (simp add: Let_def)
  then have "length (trim (take ?ti text)) \<le> n"
    using length_trim_le [of "take ?ti text"] by simp
  then show ?thesis
    using assms unfolding truncateAtWordBoundary_def isBoundary_def Let_def
    by (auto simp: not_le)
qed

lemma trunc_negative:
  assumes "q < 0"
  shows "truncateAtWordBoundary text (Finite q) = []"
proof -
  from assms have f: "nat \<lfloor>q\<rfloor> = 0" by (simp add: floor_le_zero less_imp_le)
  have n: "\<not> of_nat (length text) \<le> q" using assms by (simp add: not_le order.strict_trans2)
  have t: "trim [] = ([] :: jsstring)" by (simp add: trim_def trimEnd_def trimStart_def)
  show ?thesis
    using assms n by (simp add: truncateAtWordBoundary_def Let_def f t)
qed

lemma trunc_neg_infinity: "truncateAtWordBoundary text NegInfinity = []"
  by (simp add: truncateAtWordBoundary_def Let_def trim_def trimEnd_def trimStart_def)

lemma trunc_fraction:
  assumes "0 \<le> q" and "of_int \<lfloor>q\<rfloor> \<noteq> q" and "q < of_nat (length text)"
  shows "truncateAtWordBoundary text (Finite q) = trim (take (nat \<lfloor>q\<rfloor>) text)"
proof -
  have "length (trim (take (nat \<lfloor>q\<rfloor>) text)) \<le> nat \<lfloor>q\<rfloor>"
    using length_trim_le [of "take (nat \<lfloor>q\<rfloor>) text"] by simp
  then have "(of_nat (length (trim (take (nat \<lfloor>q\<rfloor>) text))) :: rat) \<le> of_nat (nat \<lfloor>q\<rfloor>)"
    by (simp only: of_nat_le_iff)
  also have "\<dots> = of_int \<lfloor>q\<rfloor>" using assms(1) by simp
  also have "\<dots> \<le> q" by simp
  finally have "\<not> q < of_nat (length (trim (take (nat \<lfloor>q\<rfloor>) text)))" by simp
  then show ?thesis
    using assms by (simp add: truncateAtWordBoundary_def Let_def not_le)
qed

text \<open>
  Claim C3, as the code has it. \<open>maxLength\<close> is a Number and the text is longer than it,
  so it is finite or minus infinity. The result never ends in white space. For a
  \<open>maxLength\<close> that is not negative the result is at most \<open>maxLength\<close> code units long.
  When \<open>maxLength\<close> is a natural number \<open>n\<close>, the result is the trimmed prefix of the
  text up to a cut: the cut is \<open>n\<close> when the code unit at \<open>n\<close> is a space or a line
  break; otherwise it is the nearest preceding space or line break \<open>b\<close>, unless \<open>b\<close> is
  more than 20 code units before \<open>n\<close> or there is none, and then the cut is \<open>n\<close>; a text
  without white space is cut to exactly \<open>n\<close> code units. When \<open>maxLength\<close> is not an
  integer there is no code unit at that position: the cut is at its integer part and no
  boundary is looked for. When \<open>maxLength\<close> is negative the result is the empty string,
  whose length is not below \<open>maxLength\<close>.
\<close>

theorem truncateAtWordBoundary_spec:
  assumes "lengthGt (length text) maxLength"
  shows "(truncateAtWordBoundary text maxLength = []
         \<or> \<not> isWhiteSpace (last (truncateAtWordBoundary text maxLength)))
    \<and> (\<forall>q. maxLength = Finite q \<and> 0 \<le> q \<longrightarrow>
          of_nat (length (truncateAtWordBoundary text maxLength)) \<le> q)
    \<and> (\<forall>n. maxLength = Finite (of_nat n) \<longrightarrow>
          length (truncateAtWordBoundary text maxLength) \<le> n
        \<and> (isBoundary (text ! n) \<longrightarrow>
             truncateAtWordBoundary text maxLength = trim (take n text))
        \<and> (\<forall>b. \<not> isBoundary (text ! n) \<and> b < n \<and> isBoundary (text ! b)
                \<and> (\<forall>j. b < j \<and> j < n \<longrightarrow> \<not> isBoundary (text ! j)) \<longrightarrow>
             truncateAtWordBoundary text maxLength =
               trim (take (if n - b > 20 then n else b) text))
        \<and> (\<not> isBoundary (text ! n) \<and> (\<forall>j<n. \<not> isBoundary (text ! j)) \<longrightarrow>
             truncateAtWordBoundary text maxLength = trim (take n text))
        \<and> ((\<forall>c\<in>set text. \<not> isWhiteSpace c) \<longrightarrow>
             truncateAtWordBoundary text maxLength = take n text
             \<and> length (truncateAtWordBoundary text maxLength) = n))
    \<and> (\<forall>q. maxLength = Finite q \<and> 0 \<le> q \<and> of_int \<lfloor>q\<rfloor> \<noteq> q \<longrightarrow>
          truncateAtWordBoundary text maxLength = trim (take (nat \<lfloor>q\<rfloor>) text))
    \<and> ((\<exists>q. maxLength = Finite q \<and> q < 0) \<or> maxLength = NegInfinity \<longrightarrow>
          truncateAtWordBoundary text maxLength = [])"
proof -
  let ?r = "truncateAtWordBoundary text maxLength"
  have nat_case: "length ?r \<le> n
        \<and> (isBoundary (text ! n) \<longrightarrow> ?r = trim (take n text))
        \<and> (\<forall>b. \<not> isBoundary (text ! n) \<and> b < n \<and> isBoundary (text ! b)
                \<and> (\<forall>j. b < j \<and> j < n \<longrightarrow> \<not> isBoundary (text ! j)) \<longrightarrow>
             ?r = trim (take (if n - b > 20 then n else b) text))
        \<and> (\<not> isBoundary (text ! n) \<and> (\<forall>j<n. \<not> isBoundary (text ! j)) \<longrightarrow>
             ?r = trim (take n text))
        \<and> ((\<forall>c\<in>set text. \<not> isWhiteSpace c) \<longrightarrow>
             ?r = take n text \<and> length ?r = n)"
    if m: "maxLength = Finite (of_nat n)" for n
  proof -
    from assms m have lt: "n < length text" by simp
    note cut = trunc_nat [OF lt, folded m]
    have len: "length ?r \<le> n"
    proof -
      have "scanBack text n n \<le> n"
        using scanBack_le [of "text" n n] by simp
      then show ?thesis
        unfolding cut using length_trim_le [of "take n text"]
          length_trim_le [of "take (scanBack text n n) text"]
        by (simp add: Let_def)
    qed
    have atb: "isBoundary (text ! n) \<longrightarrow> ?r = trim (take n text)"
      unfolding cut by simp
    have found: "?r = trim (take (if n - b > 20 then n else b) text)"
      if "\<not> isBoundary (text ! n)" "b < n" "isBoundary (text ! b)"
         "\<forall>j. b < j \<and> j < n \<longrightarrow> \<not> isBoundary (text ! j)" for b
      unfolding cut using that scanBack_found [of b n "text" n]
      by (simp add: Let_def)
    have none: "?r = trim (take n text)"
      if "\<not> isBoundary (text ! n)" "\<forall>j<n. \<not> isBoundary (text ! j)"
      unfolding cut using that scanBack_none [of n "text" n]
      by (simp add: Let_def)
    have plain: "?r = take n text \<and> length ?r = n"
      if nows: "\<forall>c\<in>set text. \<not> isWhiteSpace c"
    proof -
      have nb: "\<not> isBoundary (text ! j)" if "j < length text" for j
        using nows that nth_mem [OF that] by (auto simp: isBoundary_def isWhiteSpace_def)
      have "\<forall>c\<in>set (take n text). \<not> isWhiteSpace c"
        using nows by (meson in_set_takeD)
      then have "trim (take n text) = take n text"
        by (rule trim_no_ws)
      moreover have "?r = trim (take n text)"
        using none nb lt by simp
      ultimately show ?thesis using lt by simp
    qed
    show ?thesis using len atb found none plain by blast
  qed
  have frac: "?r = trim (take (nat \<lfloor>q\<rfloor>) text)"
    if "maxLength = Finite q" "0 \<le> q" "of_int \<lfloor>q\<rfloor> \<noteq> q" for q
    using that assms trunc_fraction [of q "text"] by simp
  have neg: "?r = []" if "(\<exists>q. maxLength = Finite q \<and> q < 0) \<or> maxLength = NegInfinity"
    using that trunc_negative trunc_neg_infinity by auto
  have bound: "of_nat (length ?r) \<le> q" if m: "maxLength = Finite q" and q: "0 \<le> q" for q
  proof (cases "of_int \<lfloor>q\<rfloor> = q")
    case True
    with q have "q = of_nat (nat \<lfloor>q\<rfloor>)" by (metis of_nat_nat zero_le_floor)
    with nat_case [of "nat \<lfloor>q\<rfloor>"] m have "length ?r \<le> nat \<lfloor>q\<rfloor>" by simp
    then have "(of_nat (length ?r) :: rat) \<le> of_nat (nat \<lfloor>q\<rfloor>)" by (simp only: of_nat_le_iff)
    with \<open>q = of_nat (nat \<lfloor>q\<rfloor>)\<close> show ?thesis by simp
  next
    case False
    have "length (trim (take (nat \<lfloor>q\<rfloor>) text)) \<le> nat \<lfloor>q\<rfloor>"
      using length_trim_le [of "take (nat \<lfloor>q\<rfloor>) text"] by simp
    then have "(of_nat (length ?r) :: rat) \<le> of_nat (nat \<lfloor>q\<rfloor>)"
      unfolding frac [OF m q False] by (simp only: of_nat_le_iff)
    also have "\<dots> = of_int \<lfloor>q\<rfloor>" using q by simp
    also have "\<dots> \<le> q" by simp
    finally show ?thesis .
  qed
  have ws: "?r = [] \<or> \<not> isWhiteSpace (last ?r)"
  proof (cases maxLength)
    case (Finite q)
    show ?thesis
    proof (cases "q < 0")
      case True
      with neg Finite show ?thesis by auto
    next
      case nn: False
      show ?thesis
      proof (cases "of_int \<lfloor>q\<rfloor> = q")
        case True
        with nn have qn: "q = of_nat (nat \<lfloor>q\<rfloor>)" by (metis not_less of_nat_nat zero_le_floor)
        with assms Finite have lt: "nat \<lfloor>q\<rfloor> < length text" by (metis lengthGt.simps(1) of_nat_less_iff)
        from trunc_nat [OF lt] qn Finite trim_last show ?thesis by metis
      next
        case False
        with frac [OF Finite] nn trim_last show ?thesis by (metis not_less)
      qed
    qed
  next
    case NegInfinity
    with neg show ?thesis by simp
  qed (use assms in simp_all)
  from ws bound nat_case frac neg show ?thesis by blast
qed

text \<open>
  The theorem at the examples of the specification: \<open>aaaa aaaa aaaa aaaa\<close> cut inside the
  second word (\<open>maxLength = 7\<close>) gives \<open>aaaa\<close>; at \<open>maxLength = 9\<close> the code unit at
  index 9 is a space and the result is \<open>aaaa aaaa\<close>; 100 code units without white space
  and \<open>maxLength = 50\<close> give 50 code units. At \<open>maxLength = 7.5\<close> the same text is cut
  at 7, inside the second word, and at \<open>maxLength = -3\<close> the result is empty.
\<close>

theorem truncateAtWordBoundary_spec_witness:
  "length (truncateAtWordBoundary (js ''aaaa aaaa aaaa aaaa'') (Finite 7)) \<le> 7
   \<and> truncateAtWordBoundary (js ''aaaa aaaa aaaa aaaa'') (Finite 7) = js ''aaaa''
   \<and> truncateAtWordBoundary (js ''aaaa aaaa aaaa aaaa'') (Finite 9) = js ''aaaa aaaa''
   \<and> length (truncateAtWordBoundary (replicate 100 0x61) (Finite 50)) = 50
   \<and> truncateAtWordBoundary (js ''aaaa aaaa aaaa aaaa'') (Finite (15 / 2)) = js ''aaaa aa''
   \<and> truncateAtWordBoundary (js ''aaaa aaaa aaaa aaaa'') (Finite (- 3)) = []"
proof -
  let ?t = "js ''aaaa aaaa aaaa aaaa''"
  have l: "lengthGt (length ?t) (Finite 7)" "lengthGt (length ?t) (Finite 9)"
    "lengthGt (length ?t) (Finite (15 / 2))" "lengthGt (length ?t) (Finite (- 3))"
    by (simp_all add: js_def)
  have n7: "Finite 7 = Finite (of_nat 7)" and n9: "Finite 9 = Finite (of_nat 9)"
    and n50: "Finite 50 = Finite (of_nat 50)" by simp_all
  have h7: "\<not> isBoundary (?t ! 7) \<and> 4 < (7::nat) \<and> isBoundary (?t ! 4)
            \<and> (\<forall>j. 4 < j \<and> j < 7 \<longrightarrow> \<not> isBoundary (?t ! j))"
  proof -
    have "\<not> isBoundary (?t ! j)" if "4 < j" "j < 7" for j
    proof -
      from that have "j = 5 \<or> j = 6" by arith
      then show ?thesis by (auto simp: js_def isBoundary_def)
    qed
    then show ?thesis by (simp add: js_def isBoundary_def)
  qed
  have t4: "trim (take 4 ?t) = js ''aaaa''"
    by (simp add: js_def trim_def trimStart_def trimEnd_def isWhiteSpace_def)
  have h9: "isBoundary (?t ! 9)" by (simp add: js_def isBoundary_def)
  have t9: "trim (take 9 ?t) = js ''aaaa aaaa''"
    by (simp add: js_def trim_def trimStart_def trimEnd_def isWhiteSpace_def)
  have t7: "trim (take 7 ?t) = js ''aaaa aa''"
    by (simp add: js_def trim_def trimStart_def trimEnd_def isWhiteSpace_def)
  have l100: "lengthGt (length (replicate 100 (0x61::jschar))) (Finite 50)" by simp
  have n100: "\<forall>c\<in>set (replicate 100 (0x61::jschar)). \<not> isWhiteSpace c"
    by (simp add: isWhiteSpace_def)
  note s7 = truncateAtWordBoundary_spec [OF l(1), THEN conjunct2, THEN conjunct2, THEN conjunct1,
      rule_format, OF n7]
  have a: "length (truncateAtWordBoundary ?t (Finite 7)) \<le> 7"
    by (rule s7 [THEN conjunct1])
  have "truncateAtWordBoundary ?t (Finite 7) = trim (take (if (7::nat) - 4 > 20 then 7 else 4) ?t)"
    using s7 [THEN conjunct2, THEN conjunct2, THEN conjunct1, rule_format, of 4] h7
    by simp
  then have b: "truncateAtWordBoundary ?t (Finite 7) = js ''aaaa''"
    using t4 by simp
  have c: "truncateAtWordBoundary ?t (Finite 9) = js ''aaaa aaaa''"
    using truncateAtWordBoundary_spec [OF l(2), THEN conjunct2, THEN conjunct2, THEN conjunct1,
        rule_format, OF n9, THEN conjunct2, THEN conjunct1] h9 t9
    by simp
  have d: "length (truncateAtWordBoundary (replicate 100 0x61) (Finite 50)) = 50"
    using truncateAtWordBoundary_spec [OF l100, THEN conjunct2, THEN conjunct2, THEN conjunct1,
        rule_format, OF n50, THEN conjunct2, THEN conjunct2, THEN conjunct2, THEN conjunct2] n100
    by simp
  have fl7: "\<lfloor>15 / 2 :: rat\<rfloor> = 7" by linarith
  have fl: "nat \<lfloor>15 / 2 :: rat\<rfloor> = 7" "(0::rat) \<le> 15 / 2" "of_int \<lfloor>15 / 2 :: rat\<rfloor> \<noteq> (15 / 2 :: rat)"
    by (simp_all add: fl7)
  have e: "truncateAtWordBoundary ?t (Finite (15 / 2)) = js ''aaaa aa''"
    using truncateAtWordBoundary_spec [OF l(3), THEN conjunct2, THEN conjunct2, THEN conjunct2,
        THEN conjunct1, rule_format, of "15 / 2"] fl t7
    by simp
  have f: "truncateAtWordBoundary ?t (Finite (- 3)) = []"
    using truncateAtWordBoundary_spec [OF l(4), THEN conjunct2, THEN conjunct2, THEN conjunct2,
        THEN conjunct2]
    by simp
  show ?thesis using a b c d e f by simp
qed

text \<open>
  Claim C3 as written says that \<open>aaaa aaaa aaaa aaaa\<close> with \<open>maxLength = 9\<close> truncates to
  \<open>aaaa\<close>. It does not: index 9 holds a space, so the cut is at 9. It also says that for
  every \<open>maxLength\<close> the result is at most \<open>maxLength\<close> long: at \<open>maxLength = -3\<close> the
  result is the empty string, and its length 0 exceeds \<open>-3\<close>.
\<close>

theorem truncateAtWordBoundary_example_counterexample:
  "truncateAtWordBoundary (js ''aaaa aaaa aaaa aaaa'') (Finite 9) \<noteq> js ''aaaa''
   \<and> lengthGt (length (js ''aaaa aaaa aaaa aaaa'')) (Finite (- 3))
   \<and> lengthGt (length (truncateAtWordBoundary (js ''aaaa aaaa aaaa aaaa'') (Finite (- 3))))
        (Finite (- 3))"
  by (simp add: truncateAtWordBoundary_def js_def trim_def trimStart_def trimEnd_def
        isWhiteSpace_def)

section \<open>Properties of the selector alternatives\<close>

lemma sublist_joinWith: "x \<in> set xs \<Longrightarrow> sublist x (joinWith sep xs)"
proof (induction sep xs rule: joinWith.induct)
  case (1 sep)
  then show ?case by simp
next
  case (2 sep y)
  then show ?case by simp
next
  case (3 sep y z zs)
  show ?case
  proof (cases "x = y")
    case True
    then show ?thesis by (simp add: sublist_append)
  next
    case False
    with 3 have "sublist x (joinWith sep (z # zs))" by simp
    then show ?thesis by (simp add: sublist_append)
  qed
qed

lemma filter_first:
  "filter P xs = y # ys \<Longrightarrow> \<exists>i<length xs. xs ! i = y \<and> P y \<and> (\<forall>j<i. \<not> P (xs ! j))"
proof (induction xs)
  case Nil
  then show ?case by simp
next
  case (Cons x xs)
  show ?case
  proof (cases "P x")
    case True
    with Cons.prems have "x = y" by simp
    with True show ?thesis by (intro exI [of _ 0]) simp
  next
    case False
    with Cons obtain i where i: "i < length xs" "xs ! i = y" "P y" "\<forall>j<i. \<not> P (xs ! j)"
      by auto
    have "\<forall>j<Suc i. \<not> P ((x # xs) ! j)"
      using False i(4) by (auto simp: less_Suc_eq_0_disj)
    with i show ?thesis by (intro exI [of _ "Suc i"]) simp
  qed
qed

lemma filter_empty_iff: "filter P xs = [] \<longleftrightarrow> (\<forall>x\<in>set xs. \<not> P x)"
  by (simp add: filter_empty_conv)

lemma errorText_error: "error r = Some e \<Longrightarrow> e \<noteq> [] \<Longrightarrow> errorText r = e"
  by (simp add: errorText_def)

lemma first_success:
  assumes "\<exists>r\<in>set rs. successful r"
  shows "\<exists>i<length rs. successful (rs ! i) \<and> (\<forall>j<i. \<not> successful (rs ! j))
           \<and> (\<exists>l. locator (rs ! i) = Some l)
           \<and> (\<exists>ys. filter successful rs = rs ! i # ys)"
proof -
  from assms have "filter successful rs \<noteq> []" by (simp add: filter_empty_conv)
  then obtain y ys where f: "filter successful rs = y # ys" by (cases "filter successful rs") auto
  from filter_first [OF f] obtain i where i: "i < length rs" "rs ! i = y" "successful y"
    "\<forall>j<i. \<not> successful (rs ! j)" by blast
  from i(3) obtain l where "locator y = Some l" by (auto simp: successful_def)
  with i f show ?thesis by auto
qed

lemma resolveFirstElement_success:
  assumes "\<exists>r\<in>set rs. successful r"
  shows "\<exists>i<length rs. successful (rs ! i) \<and> (\<forall>j<i. \<not> successful (rs ! j))
           \<and> (\<exists>l. locator (rs ! i) = Some l)
           \<and> resolveFirstElement rs msg = Inr (locator (rs ! i))"
proof -
  from first_success [OF assms] obtain i ys where i: "i < length rs" "successful (rs ! i)"
    "\<forall>j<i. \<not> successful (rs ! j)" "\<exists>l. locator (rs ! i) = Some l"
    "filter successful rs = rs ! i # ys" by blast
  from i(5) have "resolveFirstElement rs msg = Inr (locator (rs ! i))"
    by (simp add: resolveFirstElement_def)
  with i show ?thesis by blast
qed

lemma resolveFirstElement_failure:
  assumes "\<forall>r\<in>set rs. \<not> successful r"
  shows "resolveFirstElement rs msg =
           Inl (msg @ js '': '' @ joinWith (js '', '') (map errorText rs))"
    and "r \<in> set rs \<Longrightarrow> sublist (errorText r)
           (msg @ js '': '' @ joinWith (js '', '') (map errorText rs))"
proof -
  from assms have "filter successful rs = []" by (simp add: filter_empty_conv)
  then show "resolveFirstElement rs msg =
           Inl (msg @ js '': '' @ joinWith (js '', '') (map errorText rs))"
    by (simp add: resolveFirstElement_def)
  assume "r \<in> set rs"
  then have "errorText r \<in> set (map errorText rs)" by simp
  then have "sublist (errorText r) (joinWith (js '', '') (map errorText rs))"
    by (rule sublist_joinWith)
  then show "sublist (errorText r) (msg @ js '': '' @ joinWith (js '', '') (map errorText rs))"
    by (simp add: sublist_append)
qed


lemma resolveDragElements_success:
  assumes "\<exists>r\<in>set ss. successful r" and "\<exists>r\<in>set es. successful r"
  shows "\<exists>i<length ss. \<exists>k<length es.
           successful (ss ! i) \<and> (\<forall>j<i. \<not> successful (ss ! j)) \<and>
           successful (es ! k) \<and> (\<forall>j<k. \<not> successful (es ! j)) \<and>
           resolveDragElements ss es = Inr (locator (ss ! i), locator (es ! k))"
proof -
  from first_success [OF assms(1)] obtain i ys where i: "i < length ss" "successful (ss ! i)"
    "\<forall>j<i. \<not> successful (ss ! j)" "filter successful ss = ss ! i # ys" by blast
  from first_success [OF assms(2)] obtain k zs where k: "k < length es" "successful (es ! k)"
    "\<forall>j<k. \<not> successful (es ! j)" "filter successful es = es ! k # zs" by blast
  from i(4) k(4) have "resolveDragElements ss es = Inr (locator (ss ! i), locator (es ! k))"
    by (simp add: resolveDragElements_def)
  with i k show ?thesis by blast
qed

lemma resolveDragElements_start_failure:
  assumes "\<forall>r\<in>set ss. \<not> successful r"
  shows "resolveDragElements ss es =
           Inl (js ''Failed to resolve start element selectors: ''
                  @ joinWith (js '', '') (map errorText ss))"
proof -
  from assms have "filter successful ss = []" by (simp add: filter_empty_conv)
  then show ?thesis by (simp add: resolveDragElements_def)
qed

lemma resolveDragElements_end_failure:
  assumes "\<exists>r\<in>set ss. successful r" and "\<forall>r\<in>set es. \<not> successful r"
  shows "resolveDragElements ss es =
           Inl (js ''Failed to resolve end element selectors: ''
                  @ joinWith (js '', '') (map errorText es))"
proof -
  from first_success [OF assms(1)] obtain y ys where "filter successful ss = y # ys" by blast
  moreover from assms(2) have "filter successful es = []" by (simp add: filter_empty_conv)
  ultimately show ?thesis by (simp add: resolveDragElements_def)
qed

lemma sublist_errors:
  "r \<in> set rs \<Longrightarrow> sublist (errorText r) (pre @ joinWith sep (map errorText rs))"
proof -
  assume "r \<in> set rs"
  then have "errorText r \<in> set (map errorText rs)" by simp
  then have "sublist (errorText r) (joinWith sep (map errorText rs))"
    by (rule sublist_joinWith)
  then show ?thesis by (simp add: sublist_append)
qed

lemma sublist_error_field:
  assumes "sublist (errorText r) m" and "error r = Some e"
  shows "sublist e m"
proof (cases "e = []")
  case True
  then show ?thesis by simp
next
  case False
  with assms show ?thesis by (simp add: errorText_def)
qed

text \<open>
  Claim C8. \<open>rs\<close> are the resolution results of the alternatives, in the caller's
  order. When some alternative resolved with a locator and without error, the result is
  the locator of the first such alternative. The call fails exactly when every
  alternative failed, and then the message of the thrown error contains the error text of
  every alternative (\<open>Unknown error\<close> for one that carries none). For alternatives
  \<open>[A, B]\<close> with \<open>A\<close> failed and \<open>B\<close> successful the locator of \<open>B\<close> is returned.
  \<open>resolveDragElements\<close> does the same for the start and the end group.
\<close>

theorem resolveFirstElement_first_success:
  assumes "rs \<noteq> []"
  shows "((\<exists>r\<in>set rs. successful r) \<longrightarrow>
            (\<exists>i<length rs. successful (rs ! i) \<and> (\<forall>j<i. \<not> successful (rs ! j))
               \<and> (\<exists>l. locator (rs ! i) = Some l)
               \<and> resolveFirstElement rs msg = Inr (locator (rs ! i))))
    \<and> ((\<exists>m. resolveFirstElement rs msg = Inl m) \<longleftrightarrow> (\<forall>r\<in>set rs. \<not> successful r))
    \<and> (\<forall>m. resolveFirstElement rs msg = Inl m \<longrightarrow>
            m = msg @ js '': '' @ joinWith (js '', '') (map errorText rs)
            \<and> (\<forall>r\<in>set rs. sublist (errorText r) m
                   \<and> (\<forall>e. error r = Some e \<longrightarrow> sublist e m)))
    \<and> (\<not> successful A \<and> successful B \<longrightarrow> resolveFirstElement [A, B] msg = Inr (locator B))
    \<and> (\<not> successful A \<and> \<not> successful B \<longrightarrow>
          (\<exists>m. resolveFirstElement [A, B] msg = Inl m
              \<and> sublist (errorText A) m \<and> sublist (errorText B) m))
    \<and> ((\<exists>r\<in>set rs. successful r) \<and> (\<exists>r\<in>set es. successful r) \<longrightarrow>
          (\<exists>i<length rs. \<exists>k<length es.
             successful (rs ! i) \<and> (\<forall>j<i. \<not> successful (rs ! j)) \<and>
             successful (es ! k) \<and> (\<forall>j<k. \<not> successful (es ! j)) \<and>
             resolveDragElements rs es = Inr (locator (rs ! i), locator (es ! k))))
    \<and> ((\<forall>r\<in>set rs. \<not> successful r) \<longrightarrow>
          (\<exists>m. resolveDragElements rs es = Inl m \<and> (\<forall>r\<in>set rs. sublist (errorText r) m)))
    \<and> ((\<exists>r\<in>set rs. successful r) \<and> (\<forall>r\<in>set es. \<not> successful r) \<longrightarrow>
          (\<exists>m. resolveDragElements rs es = Inl m \<and> (\<forall>r\<in>set es. sublist (errorText r) m)))"
proof -
  have c1: "(\<exists>r\<in>set rs. successful r) \<longrightarrow>
            (\<exists>i<length rs. successful (rs ! i) \<and> (\<forall>j<i. \<not> successful (rs ! j))
               \<and> (\<exists>l. locator (rs ! i) = Some l)
               \<and> resolveFirstElement rs msg = Inr (locator (rs ! i)))"
    using resolveFirstElement_success by blast
  have c2: "(\<exists>m. resolveFirstElement rs msg = Inl m) \<longleftrightarrow> (\<forall>r\<in>set rs. \<not> successful r)"
  proof
    assume "\<exists>m. resolveFirstElement rs msg = Inl m"
    then obtain m where m: "resolveFirstElement rs msg = Inl m" ..
    show "\<forall>r\<in>set rs. \<not> successful r"
    proof (rule ccontr)
      assume "\<not> (\<forall>r\<in>set rs. \<not> successful r)"
      then have "\<exists>r\<in>set rs. successful r" by blast
      from resolveFirstElement_success [OF this, of msg] m show False by auto
    qed
  next
    assume "\<forall>r\<in>set rs. \<not> successful r"
    from resolveFirstElement_failure(1) [OF this] show "\<exists>m. resolveFirstElement rs msg = Inl m"
      by blast
  qed
  have c3: "\<forall>m. resolveFirstElement rs msg = Inl m \<longrightarrow>
            m = msg @ js '': '' @ joinWith (js '', '') (map errorText rs)
            \<and> (\<forall>r\<in>set rs. sublist (errorText r) m
                   \<and> (\<forall>e. error r = Some e \<longrightarrow> sublist e m))"
  proof (intro allI impI)
    fix m assume m: "resolveFirstElement rs msg = Inl m"
    with c2 have nf: "\<forall>r\<in>set rs. \<not> successful r" by blast
    from resolveFirstElement_failure(1) [OF nf, of msg] m
    have meq: "m = msg @ js '': '' @ joinWith (js '', '') (map errorText rs)" by simp
    have "sublist (errorText r) m \<and> (\<forall>e. error r = Some e \<longrightarrow> sublist e m)"
      if "r \<in> set rs" for r
    proof -
      from resolveFirstElement_failure(2) [OF nf that, of msg] meq
      have s: "sublist (errorText r) m" by simp
      with sublist_error_field show ?thesis by blast
    qed
    with meq show "m = msg @ js '': '' @ joinWith (js '', '') (map errorText rs)
            \<and> (\<forall>r\<in>set rs. sublist (errorText r) m
                   \<and> (\<forall>e. error r = Some e \<longrightarrow> sublist e m))" by blast
  qed
  have c4: "\<not> successful A \<and> successful B \<longrightarrow> resolveFirstElement [A, B] msg = Inr (locator B)"
    by (simp add: resolveFirstElement_def)
  have c5: "\<not> successful A \<and> \<not> successful B \<longrightarrow>
          (\<exists>m. resolveFirstElement [A, B] msg = Inl m
              \<and> sublist (errorText A) m \<and> sublist (errorText B) m)"
    by (simp add: resolveFirstElement_def sublist_append)
  have c6: "(\<exists>r\<in>set rs. successful r) \<and> (\<exists>r\<in>set es. successful r) \<longrightarrow>
          (\<exists>i<length rs. \<exists>k<length es.
             successful (rs ! i) \<and> (\<forall>j<i. \<not> successful (rs ! j)) \<and>
             successful (es ! k) \<and> (\<forall>j<k. \<not> successful (es ! j)) \<and>
             resolveDragElements rs es = Inr (locator (rs ! i), locator (es ! k)))"
    using resolveDragElements_success by blast
  have c7: "(\<forall>r\<in>set rs. \<not> successful r) \<longrightarrow>
          (\<exists>m. resolveDragElements rs es = Inl m \<and> (\<forall>r\<in>set rs. sublist (errorText r) m))"
    using resolveDragElements_start_failure [of rs es] sublist_errors by fastforce
  have c8: "(\<exists>r\<in>set rs. successful r) \<and> (\<forall>r\<in>set es. \<not> successful r) \<longrightarrow>
          (\<exists>m. resolveDragElements rs es = Inl m \<and> (\<forall>r\<in>set es. sublist (errorText r) m))"
    using resolveDragElements_end_failure [of rs es] sublist_errors by fastforce
  from c1 c2 c3 c4 c5 c6 c7 c8 show ?thesis by (intro conjI)
qed


text \<open>
  The theorem at concrete alternatives: \<open>A\<close> fails with \<open>no match\<close>, \<open>B\<close> resolves to
  locator 7, \<open>C\<close> fails with \<open>timeout\<close>.
\<close>

theorem resolveFirstElement_first_success_witness:
  "resolveFirstElement
      [\<lparr>locator = None, error = Some (js ''no match'')\<rparr>,
       \<lparr>locator = Some (7::nat), error = None\<rparr>] defaultErrorMessage = Inr (Some 7)
   \<and> (\<exists>m. resolveFirstElement
      [\<lparr>locator = None, error = Some (js ''no match'')\<rparr>,
       \<lparr>locator = None :: nat option, error = Some (js ''timeout'')\<rparr>] defaultErrorMessage = Inl m
        \<and> sublist (js ''no match'') m \<and> sublist (js ''timeout'') m)"
proof -
  let ?A = "\<lparr>locator = None :: nat option, error = Some (js ''no match'')\<rparr>"
  let ?B = "\<lparr>locator = Some (7::nat), error = None\<rparr>"
  let ?C = "\<lparr>locator = None :: nat option, error = Some (js ''timeout'')\<rparr>"
  have ne: "[?A, ?B] \<noteq> []" by simp
  have sA: "\<not> successful ?A" and sB: "successful ?B" and sC: "\<not> successful ?C"
    by (simp_all add: successful_def truthy_def)
  have eA: "errorText ?A = js ''no match''" and eC: "errorText ?C = js ''timeout''"
    by (simp_all add: errorText_def js_def)
  note t = resolveFirstElement_first_success [OF ne, of defaultErrorMessage]
  have "resolveFirstElement [?A, ?B] defaultErrorMessage = Inr (locator ?B)"
    using t [of ?A ?B, THEN conjunct2, THEN conjunct2, THEN conjunct2, THEN conjunct1] sA sB
    by blast
  then have first: "resolveFirstElement [?A, ?B] defaultErrorMessage = Inr (Some 7)"
    by simp
  have "\<exists>m. resolveFirstElement [?A, ?C] defaultErrorMessage = Inl m
              \<and> sublist (errorText ?A) m \<and> sublist (errorText ?C) m"
    using t [of ?A ?C, THEN conjunct2, THEN conjunct2, THEN conjunct2, THEN conjunct2,
        THEN conjunct1] sA sC
    by blast
  then have both: "\<exists>m. resolveFirstElement [?A, ?C] defaultErrorMessage = Inl m
              \<and> sublist (js ''no match'') m \<and> sublist (js ''timeout'') m"
    unfolding eA eC .
  from first both show ?thesis by (rule conjI)
qed


section \<open>Properties of the landmark extraction\<close>

lemma captureLoop_capturing:
  "captureLoop role True ci acc lines = acc @ takeWhile (\<lambda>l. indentOf l > ci) lines"
  by (induction lines arbitrary: acc) (simp_all add: Let_def)

lemma captureLoop_searching:
  "\<forall>l\<in>set before. \<not> roleMatches role l \<Longrightarrow>
   captureLoop role False ci acc (before @ rest) = captureLoop role False ci acc rest"
  by (induction before) (simp_all add: Let_def roleMatches_def)

lemma captureLoop_no_match:
  "\<forall>l\<in>set lines. \<not> roleMatches role l \<Longrightarrow> captureLoop role False ci acc lines = acc"
  using captureLoop_searching [of lines role ci acc "[]"] by simp

lemma captureLoop_match:
  assumes "\<forall>l\<in>set before. \<not> roleMatches role l" and "roleMatches role L"
  shows "captureLoop role False ci [] (before @ L # rest) =
           L # takeWhile (\<lambda>l. indentOf l > indentOf L) rest"
proof -
  have "captureLoop role False ci [] (before @ L # rest) = captureLoop role False ci [] (L # rest)"
    by (rule captureLoop_searching [OF assms(1)])
  also have "\<dots> = captureLoop role True (indentOf L) [L] rest"
    using assms(2) by (simp add: Let_def roleMatches_def)
  finally show ?thesis by (simp add: captureLoop_capturing)
qed

lemma trimStart_hd: "trimStart s \<noteq> [] \<Longrightarrow> \<not> isWhiteSpace (hd (trimStart s))"
  unfolding trimStart_def by (rule hd_dropWhile)

lemma trimStart_idem: "trimStart (trimStart s) = trimStart s"
  unfolding trimStart_def by simp

lemma indentOf_nonneg: "0 \<le> indentOf l"
  unfolding indentOf_def trimStart_def using length_dropWhile_le [of isWhiteSpace l] by simp

lemma trimStart_spaces:
  assumes "x = [] \<or> \<not> isWhiteSpace (hd x)"
  shows "trimStart (replicate n SP @ x) = x"
proof -
  have sp: "isWhiteSpace SP" by (simp add: isWhiteSpace_def)
  have "dropWhile isWhiteSpace (replicate n SP @ x) = dropWhile isWhiteSpace x"
    by (rule dropWhile_append2) (simp add: sp)
  also have "\<dots> = x" using assms by (cases x) auto
  finally show ?thesis by (simp add: trimStart_def)
qed

lemma indentOf_spaces:
  assumes "x = [] \<or> \<not> isWhiteSpace (hd x)"
  shows "indentOf (replicate n SP @ x) = int n"
  unfolding indentOf_def trimStart_spaces [OF assms] by simp

lemma trim_empty_iff: "trim l = [] \<longleftrightarrow> trimStart l = []"
proof
  assume e: "trim l = []"
  show "trimStart l = []"
  proof (rule ccontr)
    assume ne: "trimStart l \<noteq> []"
    then have "\<not> isWhiteSpace (hd (trimStart l))" by (rule trimStart_hd)
    moreover have "hd (trimStart l) \<in> set (trimStart l)" using ne by simp
    ultimately have "\<exists>c\<in>set (rev (trimStart l)). \<not> isWhiteSpace c" by auto
    then have "dropWhile isWhiteSpace (rev (trimStart l)) \<noteq> []"
      by (simp add: dropWhile_eq_Nil_conv)
    with e show False by (simp add: trim_def trimEnd_def)
  qed
next
  assume "trimStart l = []"
  then show "trim l = []" by (simp add: trim_def trimEnd_def)
qed

text \<open>
  A line with content is re-indented by the difference of its indentation to the
  landmark's, written in spaces; its content is kept.
\<close>

lemma normalizeLine_content:
  assumes "trim l \<noteq> []" and "k \<le> indentOf l"
  shows "normalizeLine k l = replicate (nat (indentOf l - k)) SP @ trimStart l"
    and "indentOf (normalizeLine k l) = indentOf l - k"
    and "trimStart (normalizeLine k l) = trimStart l"
proof -
  from assms(1) have ne: "trimStart l \<noteq> []" by (simp add: trim_empty_iff)
  then have hd: "trimStart l = [] \<or> \<not> isWhiteSpace (hd (trimStart l))"
    using trimStart_hd by blast
  show n: "normalizeLine k l = replicate (nat (indentOf l - k)) SP @ trimStart l"
    using assms by (simp add: normalizeLine_def Let_def max_def)
  show "indentOf (normalizeLine k l) = indentOf l - k"
    unfolding n indentOf_spaces [OF hd] using assms(2) by simp
  show "trimStart (normalizeLine k l) = trimStart l"
    unfolding n by (rule trimStart_spaces [OF hd])
qed

lemma roleMatches_content: "roleMatches role l \<Longrightarrow> trim l \<noteq> []"
  by (auto simp: roleMatches_def rolePatternTest_def js_def)


text \<open>
  Claim C4. The landmark names are the keys of \<open>selectorToRole\<close>, with the roles the
  claim lists. When no line of the tree matches the role, the tree is returned as it is.
  Otherwise, with \<open>L\<close> the first matching line, the result joins \<open>L\<close> and the lines
  after it up to the first one that is not indented deeper than \<open>L\<close>, each normalised:
  \<open>L\<close> loses its indentation, a captured line with content keeps its content and its
  indentation relative to \<open>L\<close> (written in spaces), and a captured line of white space
  only is kept as it is.
\<close>

theorem extractPartialSnapshot_spec:
  assumes "map_of selectorToRole selector = Some role"
  shows "expectedRoleOf selector = role
    \<and> expectedRoleOf (js ''main'') = js ''main''
    \<and> expectedRoleOf (js ''header'') = js ''banner''
    \<and> expectedRoleOf (js ''footer'') = js ''contentinfo''
    \<and> expectedRoleOf (js ''nav'') = js ''navigation''
    \<and> expectedRoleOf (js ''aside'') = js ''complementary''
    \<and> expectedRoleOf (js ''section'') = js ''region''
    \<and> ((\<forall>l\<in>set (split LF full). \<not> roleMatches role l) \<longrightarrow>
          extractPartialSnapshot full selector = full)
    \<and> (\<forall>before L rest.
          split LF full = before @ L # rest \<and> (\<forall>l\<in>set before. \<not> roleMatches role l)
            \<and> roleMatches role L \<longrightarrow>
          extractPartialSnapshot full selector =
            joinWith [LF] (map (normalizeLine (indentOf L))
                             (L # takeWhile (\<lambda>l. indentOf l > indentOf L) rest))
          \<and> normalizeLine (indentOf L) L = trimStart L
          \<and> indentOf (normalizeLine (indentOf L) L) = 0
          \<and> (\<forall>l\<in>set (takeWhile (\<lambda>l. indentOf l > indentOf L) rest).
                (trim l \<noteq> [] \<longrightarrow>
                   indentOf (normalizeLine (indentOf L) l) = indentOf l - indentOf L
                   \<and> trimStart (normalizeLine (indentOf L) l) = trimStart l)
              \<and> (trim l = [] \<longrightarrow> normalizeLine (indentOf L) l = l)))"
proof -
  have role: "expectedRoleOf selector = role"
    using assms by (simp add: expectedRoleOf_def)
  have table: "expectedRoleOf (js ''main'') = js ''main''"
    "expectedRoleOf (js ''header'') = js ''banner''"
    "expectedRoleOf (js ''footer'') = js ''contentinfo''"
    "expectedRoleOf (js ''nav'') = js ''navigation''"
    "expectedRoleOf (js ''aside'') = js ''complementary''"
    "expectedRoleOf (js ''section'') = js ''region''"
    by (simp_all add: expectedRoleOf_def selectorToRole_def js_def)
  have none: "extractPartialSnapshot full selector = full"
    if "\<forall>l\<in>set (split LF full). \<not> roleMatches role l"
    using captureLoop_no_match [OF that, of "- 1" "[]"]
    by (simp add: extractPartialSnapshot_def Let_def role)
  have found: "extractPartialSnapshot full selector =
            joinWith [LF] (map (normalizeLine (indentOf L))
                             (L # takeWhile (\<lambda>l. indentOf l > indentOf L) rest))
          \<and> normalizeLine (indentOf L) L = trimStart L
          \<and> indentOf (normalizeLine (indentOf L) L) = 0
          \<and> (\<forall>l\<in>set (takeWhile (\<lambda>l. indentOf l > indentOf L) rest).
                (trim l \<noteq> [] \<longrightarrow>
                   indentOf (normalizeLine (indentOf L) l) = indentOf l - indentOf L
                   \<and> trimStart (normalizeLine (indentOf L) l) = trimStart l)
              \<and> (trim l = [] \<longrightarrow> normalizeLine (indentOf L) l = l))"
    if h: "split LF full = before @ L # rest" "\<forall>l\<in>set before. \<not> roleMatches role l"
      "roleMatches role L" for before L rest
  proof -
    have cap: "captureLoop role False (- 1) [] (split LF full) =
        L # takeWhile (\<lambda>l. indentOf l > indentOf L) rest"
      unfolding h(1) by (rule captureLoop_match [OF h(2,3)])
    have r: "extractPartialSnapshot full selector =
            joinWith [LF] (map (normalizeLine (indentOf L))
                             (L # takeWhile (\<lambda>l. indentOf l > indentOf L) rest))"
      by (simp add: extractPartialSnapshot_def Let_def role cap)
    from roleMatches_content [OF h(3)] have Lc: "trim L \<noteq> []" .
    from normalizeLine_content [OF Lc order_refl]
    have L0: "normalizeLine (indentOf L) L = trimStart L"
      "indentOf (normalizeLine (indentOf L) L) = 0" by simp_all
    have deeper: "(trim l \<noteq> [] \<longrightarrow>
                   indentOf (normalizeLine (indentOf L) l) = indentOf l - indentOf L
                   \<and> trimStart (normalizeLine (indentOf L) l) = trimStart l)
              \<and> (trim l = [] \<longrightarrow> normalizeLine (indentOf L) l = l)"
      if "l \<in> set (takeWhile (\<lambda>l. indentOf l > indentOf L) rest)" for l
    proof -
      from that have "indentOf L < indentOf l" by (rule set_takeWhileD [THEN conjunct2])
      then have le: "indentOf L \<le> indentOf l" by simp
      show ?thesis
        using normalizeLine_content(2,3) [OF _ le] by (simp add: normalizeLine_def)
    qed
    from r L0 deeper show ?thesis by blast
  qed
  from role table none found show ?thesis by blast
qed

text \<open>
  The theorem at the example of the specification: a tree with an indented \<open>main\<close>
  region of two children and a sibling \<open>contentinfo\<close> region. The landmark \<open>main\<close>
  gives the \<open>main\<close> line and its two children with the indentation of \<open>main\<close>
  removed; the landmark \<open>nav\<close>, absent from the tree, gives the tree.
\<close>

theorem extractPartialSnapshot_spec_witness:
  "extractPartialSnapshot
     (js ''- banner:'' @ [LF] @ js ''  - main [ref=e3]:'' @ [LF] @ js ''    - heading''
        @ [LF] @ js ''    - paragraph'' @ [LF] @ js ''  - contentinfo:'') (js ''main'')
     = js ''- main [ref=e3]:'' @ [LF] @ js ''  - heading'' @ [LF] @ js ''  - paragraph''
   \<and> extractPartialSnapshot
     (js ''- banner:'' @ [LF] @ js ''  - main [ref=e3]:'' @ [LF] @ js ''    - heading''
        @ [LF] @ js ''    - paragraph'' @ [LF] @ js ''  - contentinfo:'') (js ''nav'')
     = js ''- banner:'' @ [LF] @ js ''  - main [ref=e3]:'' @ [LF] @ js ''    - heading''
        @ [LF] @ js ''    - paragraph'' @ [LF] @ js ''  - contentinfo:''"
proof -
  let ?full = "js ''- banner:'' @ [LF] @ js ''  - main [ref=e3]:'' @ [LF] @ js ''    - heading''
        @ [LF] @ js ''    - paragraph'' @ [LF] @ js ''  - contentinfo:''"
  let ?L = "js ''  - main [ref=e3]:''"
  let ?rest = "[js ''    - heading'', js ''    - paragraph'', js ''  - contentinfo:'']"
  have sp: "split LF ?full = [js ''- banner:''] @ ?L # ?rest"
    by (simp add: js_def)
  have m: "map_of selectorToRole (js ''main'') = Some (js ''main'')"
    by (simp add: selectorToRole_def js_def)
  have n: "map_of selectorToRole (js ''nav'') = Some (js ''navigation'')"
    by (simp add: selectorToRole_def js_def)
  have tr: "trim (js ''- banner:'') = js ''- banner:''" "trim ?L = js ''- main [ref=e3]:''"
    "trim (js ''    - heading'') = js ''- heading''"
    "trim (js ''    - paragraph'') = js ''- paragraph''"
    "trim (js ''  - contentinfo:'') = js ''- contentinfo:''"
    by (simp_all add: js_def trim_def trimStart_def trimEnd_def isWhiteSpace_def)
  have hm: "(\<forall>l\<in>set [js ''- banner:'']. \<not> roleMatches (js ''main'') l)
      \<and> roleMatches (js ''main'') ?L"
    by (simp add: roleMatches_def rolePatternTest_def tr) (simp add: js_def)
  have hn: "\<forall>l\<in>set (split LF ?full). \<not> roleMatches (js ''navigation'') l"
    unfolding sp by (simp add: roleMatches_def rolePatternTest_def tr) (simp add: js_def)
  have ind: "indentOf ?L = 2" "indentOf (js ''    - heading'') = 4"
    "indentOf (js ''    - paragraph'') = 4" "indentOf (js ''  - contentinfo:'') = 2"
    by (simp_all add: indentOf_def trimStart_def js_def isWhiteSpace_def)
  have r2: "replicate 2 SP = [SP, SP]"
    by (simp add: numeral_2_eq_2)
  have norm: "normalizeLine 2 ?L = js ''- main [ref=e3]:''"
    "normalizeLine 2 (js ''    - heading'') = js ''  - heading''"
    "normalizeLine 2 (js ''    - paragraph'') = js ''  - paragraph''"
    by (simp_all add: normalizeLine_def tr ind Let_def)
      (simp_all add: js_def trimStart_def isWhiteSpace_def r2)
  have "extractPartialSnapshot ?full (js ''main'') =
      joinWith [LF] (map (normalizeLine (indentOf ?L))
                             (?L # takeWhile (\<lambda>l. indentOf l > indentOf ?L) ?rest))"
    using extractPartialSnapshot_spec [OF m, of ?full, THEN conjunct2, THEN conjunct2,
        THEN conjunct2, THEN conjunct2, THEN conjunct2, THEN conjunct2, THEN conjunct2,
        THEN conjunct2, rule_format, of "[js ''- banner:'']" ?L ?rest] sp hm
    by blast
  then have a: "extractPartialSnapshot ?full (js ''main'')
     = js ''- main [ref=e3]:'' @ [LF] @ js ''  - heading'' @ [LF] @ js ''  - paragraph''"
    by (simp add: ind norm)
  have b: "extractPartialSnapshot ?full (js ''nav'') = ?full"
    using extractPartialSnapshot_spec [OF n, of ?full, THEN conjunct2, THEN conjunct2,
        THEN conjunct2, THEN conjunct2, THEN conjunct2, THEN conjunct2, THEN conjunct2,
        THEN conjunct1] hn
    by blast
  from a b show ?thesis by (rule conjI)
qed


section \<open>The close event\<close>

lemma pageCloseNotified_handleEvent:
  "pageCloseNotified (fst (handleEvent e t)) =
     pageCloseNotified t + (if e = CloseEvent then 1 else 0)"
  by (cases e)
    (simp_all add: handleConsoleMessage_def onClose_def clearCollectedArtifacts_def
      setModalState_def handleNavigationStart_def handleNavigationComplete_def Let_def)

lemma pageCloseNotified_handleEvents:
  "pageCloseNotified (handleEvents es t) = pageCloseNotified t + count_list es CloseEvent"
proof (induction es arbitrary: t)
  case Nil
  then show ?case by simp
next
  case (Cons e es)
  then show ?case by (simp add: pageCloseNotified_handleEvent)
qed

text \<open>
  Claim C9, as the code has it. The close event clears the console history, the recent
  console messages and the request map, and leaves the downloads and the modal states as
  they are. The callback of the owning context is invoked once by each close event and
  by no other event: after any sequence of events it has been invoked as often as the
  sequence has close events.
\<close>

theorem onClose_clears_artifacts_and_notifies:
  "tab_consoleMessages (fst (handleEvent CloseEvent t)) = []
   \<and> tab_recentConsoleMessages (fst (handleEvent CloseEvent t)) = []
   \<and> tab_requests (fst (handleEvent CloseEvent t)) = Map.empty
   \<and> tab_downloads (fst (handleEvent CloseEvent t)) = tab_downloads t
   \<and> tab_modalStates (fst (handleEvent CloseEvent t)) = tab_modalStates t
   \<and> pageCloseNotified (fst (handleEvent CloseEvent t)) = pageCloseNotified t + 1
   \<and> pageCloseNotified (handleEvents es t) = pageCloseNotified t + count_list es CloseEvent"
  by (simp add: onClose_def clearCollectedArtifacts_def Let_def pageCloseNotified_handleEvents)

text \<open>
  Claim C9 as written says the close event also clears the downloads and the modal
  states. A tab with one dialog open and one download keeps both over the close event.
\<close>

theorem onClose_keeps_downloads_and_modals_counterexample:
  "tab_downloads (handleEvents
      [DialogEvent (js ''alert'') (js ''hi'') 1,
       DownloadStarted \<lparr>download = 2, finished = False, outputFile = js ''f''\<rparr>,
       CloseEvent] (newTab (js ''u'')))
     = [\<lparr>download = 2, finished = False, outputFile = js ''f''\<rparr>]
   \<and> tab_modalStates (handleEvents
      [DialogEvent (js ''alert'') (js ''hi'') 1,
       DownloadStarted \<lparr>download = 2, finished = False, outputFile = js ''f''\<rparr>,
       CloseEvent] (newTab (js ''u'')))
     = [DialogState (js ''alert'') (js ''hi'') 1]"
  by (simp add: newTab_def setModalState_def onClose_def clearCollectedArtifacts_def Let_def)


section \<open>Properties of the race\<close>

lemma handleEvent_emission:
  "snd (handleEvent e t) = map_option (\<lambda>m. (m, tab_listeners t)) (modalOf e)"
  by (cases e) (simp_all add: setModalState_def)

lemma handleEvent_quiet:
  "modalOf e = None \<Longrightarrow> handleEvent e t = (fst (handleEvent e t), None)"
  using handleEvent_emission [of e t] by (simp add: prod_eq_iff)

lemma resumes_Cons [simp]:
  "resumes (Resume # ticks) = Suc (resumes ticks)"
  "resumes (Ev e # ticks) = resumes ticks"
  "resumes (Reject x # ticks) = resumes ticks"
  "resumes [] = 0"
  by (simp_all add: resumes_def)

lemma resumes_append [simp]: "resumes (xs @ ys) = resumes xs + resumes ys"
  by (simp add: resumes_def)

lemma quiet_Cons [simp]:
  "quiet (k # ticks) \<longleftrightarrow> \<not> addsModal k \<and> \<not> isReject k \<and> quiet ticks"
  "quiet []"
  by (simp_all add: quiet_def)

lemma quiet_append [simp]: "quiet (xs @ ys) \<longleftrightarrow> quiet xs \<and> quiet ys"
  by (simp add: quiet_def)

lemma segment_cases:
  obtains l1 t1 x where "s l t = (l1, t1, x)"
  by (cases "s l t") auto

text \<open>
  Over a quiet prefix that does not end the action, and during which no segment throws,
  the race does what the action does in the background, and goes on with the segments
  left.
\<close>

lemma raceLoop_quiet_prefix:
  "quiet pre \<Longrightarrow> unthrown segs l t pre \<Longrightarrow> resumes pre < length segs \<Longrightarrow>
   raceLoop listener segs l t (pre @ rest) =
     raceLoop listener (drop (resumes pre) segs)
       (fst (background segs l t pre)) (snd (background segs l t pre)) rest"
proof (induction pre arbitrary: segs l t)
  case Nil
  then show ?case by simp
next
  case (Cons k pre)
  from Cons.prems obtain s segs' where segs: "segs = s # segs'" by (cases segs) auto
  show ?case
  proof (cases k)
    case (Ev e)
    with Cons.prems have q: "modalOf e = None" "quiet pre"
      "unthrown segs l (fst (handleEvent e t)) pre" "resumes pre < length segs"
      by simp_all
    from handleEvent_quiet [OF q(1)] obtain t1 where he: "handleEvent e t = (t1, None)"
      by blast
    have "raceLoop listener segs l t ((k # pre) @ rest) = raceLoop listener segs l t1 (pre @ rest)"
      by (simp add: segs Ev he)
    also have "\<dots> = raceLoop listener (drop (resumes pre) segs)
       (fst (background segs l t1 pre)) (snd (background segs l t1 pre)) rest"
      using Cons.IH [OF q(2) _ q(4), of l t1] q(3) he by simp
    finally show ?thesis by (simp add: Ev he)
  next
    case Resume
    obtain l1 t1 x where st: "s l t = (l1, t1, x)" by (rule segment_cases)
    from Cons.prems(2) st have x: "x = None" and u: "unthrown segs' l1 t1 pre"
      by (auto simp: segs Resume split: option.splits)
    from Cons.prems segs Resume have q: "quiet pre" "resumes pre < length segs'" by simp_all
    have "raceLoop listener segs l t ((k # pre) @ rest) = raceLoop listener segs' l1 t1 (pre @ rest)"
      by (simp add: segs Resume st x)
    also have "\<dots> = raceLoop listener (drop (resumes pre) segs')
       (fst (background segs' l1 t1 pre)) (snd (background segs' l1 t1 pre)) rest"
      using Cons.IH [OF q(1) u q(2)] .
    finally show ?thesis by (simp add: segs Resume st x)
  next
    case (Reject x)
    with Cons.prems show ?thesis by simp
  qed
qed

lemma newListener_fresh: "newListener t \<notin> set (tab_listeners t)"
proof -
  have "x \<le> fold max xs a" if "x \<in> set xs" for x :: nat and xs a
    using that
  proof (induction xs arbitrary: a)
    case Nil then show ?case by simp
  next
    case (Cons y ys)
    have mono: "a \<le> fold max zs a" for zs :: "nat list" and a
      by (induction zs arbitrary: a) (auto intro: order.trans [OF max.cobounded2])
    from Cons show ?case
    proof (cases "x = y")
      case True
      then show ?thesis using mono [of "max y a" ys] by simp
    next
      case False
      with Cons show ?thesis by simp
    qed
  qed
  from this [of "Suc (fold max (tab_listeners t) 0)" "tab_listeners t" 0]
  show ?thesis unfolding newListener_def by auto
qed

lemma handleEvent_listeners:
  "modalOf e = None \<Longrightarrow> tab_listeners (fst (handleEvent e t)) = tab_listeners t"
  by (cases e)
    (simp_all add: handleConsoleMessage_def onClose_def clearCollectedArtifacts_def
      handleNavigationStart_def handleNavigationComplete_def Let_def)

lemma background_listeners:
  "quiet pre \<Longrightarrow> list_all keepsListeners segs \<Longrightarrow>
   tab_listeners (snd (background segs l t pre)) = tab_listeners t"
proof (induction pre arbitrary: segs l t)
  case Nil
  then show ?case by simp
next
  case (Cons k pre)
  show ?case
  proof (cases k)
    case (Ev e)
    with Cons.prems have "modalOf e = None" "quiet pre" by simp_all
    with Cons.IH [of segs l "fst (handleEvent e t)"] Cons.prems(2) show ?thesis
      by (simp add: Ev handleEvent_listeners)
  next
    case Resume
    from \<open>quiet (k # pre)\<close> have q: "quiet pre" by simp
    show ?thesis
    proof (cases segs)
      case Nil
      with Cons.IH [OF q, of "[]" l t] Resume show ?thesis by simp
    next
      case segs: (Cons s segs')
      obtain l1 t1 x where st: "s l t = (l1, t1, x)" by (rule segment_cases)
      from Cons.prems(2) segs have k: "keepsListeners s" "list_all keepsListeners segs'"
        by simp_all
      from k(1) st have t1: "tab_listeners t1 = tab_listeners t"
        unfolding keepsListeners_def by (metis fst_conv snd_conv)
      show ?thesis
      proof (cases x)
        case None
        with t1 Cons.IH [OF q k(2), of l1 t1] show ?thesis by (simp add: Resume segs st)
      next
        case (Some err)
        with t1 Cons.IH [OF q, of "[]" l1 t1] show ?thesis by (simp add: Resume segs st)
      qed
    qed
  next
    case (Reject x)
    with Cons.prems show ?thesis by simp
  qed
qed

lemma raceLoop_completes:
  "quiet pre \<Longrightarrow> unthrown segs l t pre \<Longrightarrow> resumes pre = length segs \<Longrightarrow>
   pre = [] \<or> last pre = Resume \<Longrightarrow>
   raceLoop listener segs l t (pre @ post) =
     Some \<lparr>outcome = Inr [], shared = fst (background segs l t pre),
           tabAfter = off listener (snd (background segs l t pre)), started = True,
           running = [], pending = post\<rparr>"
proof (induction pre arbitrary: segs l t)
  case Nil
  then show ?case by simp
next
  case (Cons k pre)
  from Cons.prems(4) have lastR: "last (k # pre) = Resume" by simp
  have segs_ne: "segs \<noteq> []"
  proof
    assume "segs = []"
    with Cons.prems(3) have "resumes (k # pre) = 0" by simp
    then have "Resume \<notin> set (k # pre)"
      unfolding resumes_def by (metis (mono_tags, lifting) filter_False filter_empty_conv length_0_conv)
    moreover have "last (k # pre) \<in> set (k # pre)" by (rule last_in_set) simp
    ultimately show False using lastR by simp
  qed
  then obtain s segs' where segs: "segs = s # segs'" by (cases segs) auto
  show ?case
  proof (cases k)
    case (Ev e)
    with Cons.prems have q: "modalOf e = None" "quiet pre"
      "unthrown segs l (fst (handleEvent e t)) pre" "resumes pre = length segs"
      by simp_all
    from lastR Ev have l': "pre = [] \<or> last pre = Resume" by (cases pre) auto
    from handleEvent_quiet [OF q(1)] obtain t1 where he: "handleEvent e t = (t1, None)"
      by blast
    show ?thesis
      using Cons.IH [OF q(2) _ q(4) l', of l t1] q(3) he by (simp add: segs Ev)
  next
    case Resume
    obtain l1 t1 x where st: "s l t = (l1, t1, x)" by (rule segment_cases)
    from Cons.prems(2) st have x: "x = None" and u: "unthrown segs' l1 t1 pre"
      by (auto simp: segs Resume split: option.splits)
    from Cons.prems segs Resume have q: "quiet pre" "resumes pre = length segs'" by simp_all
    from lastR have l': "pre = [] \<or> last pre = Resume" by (cases pre) auto
    show ?thesis
      using Cons.IH [OF q(1) u q(2) l'] by (simp add: segs Resume st x)
  next
    case (Reject x)
    with Cons.prems show ?thesis by simp
  qed
qed

lemma raceLoop_modal:
  assumes "quiet pre" and "unthrown segs l t pre" and "resumes pre < length segs"
    and "modalOf e = Some m"
    and "listener \<in> set (tab_listeners (snd (background segs l t pre)))"
  shows "raceLoop listener segs l t (pre @ Ev e # post) =
     Some \<lparr>outcome = Inr [m], shared = fst (background segs l t pre),
           tabAfter = fst (handleEvent e (snd (background segs l t pre))), started = True,
           running = drop (resumes pre) segs, pending = post\<rparr>"
proof -
  let ?l = "fst (background segs l t pre)" and ?t = "snd (background segs l t pre)"
  from assms(3) obtain s segs' where d: "drop (resumes pre) segs = s # segs'"
    by (cases "drop (resumes pre) segs") auto
  from handleEvent_emission [of e ?t] assms(4)
  have he: "handleEvent e ?t = (fst (handleEvent e ?t), Some (m, tab_listeners ?t))"
    by (simp add: prod_eq_iff)
  have "raceLoop listener segs l t (pre @ Ev e # post) =
          raceLoop listener (s # segs') ?l ?t (Ev e # post)"
    using raceLoop_quiet_prefix [OF assms(1,2,3)] d by simp
  also have "\<dots> = Some \<lparr>outcome = Inr [m], shared = ?l,
           tabAfter = fst (handleEvent e ?t), started = True,
           running = s # segs', pending = post\<rparr>"
    using assms(5) by (subst raceLoop.simps) (subst he, simp)
  finally show ?thesis by (simp add: d)
qed

text \<open>
  An event that adds a modal state while the listener of the race is not registered
  passes the race by.
\<close>

lemma raceLoop_missed:
  assumes "quiet pre" and "unthrown segs l t pre" and "resumes pre < length segs"
    and "modalOf e = Some m"
    and "listener \<notin> set (tab_listeners (snd (background segs l t pre)))"
  shows "raceLoop listener segs l t (pre @ Ev e # post) =
     raceLoop listener (drop (resumes pre) segs) (fst (background segs l t pre))
       (fst (handleEvent e (snd (background segs l t pre)))) post"
proof -
  let ?l = "fst (background segs l t pre)" and ?t = "snd (background segs l t pre)"
  from assms(3) obtain s segs' where d: "drop (resumes pre) segs = s # segs'"
    by (cases "drop (resumes pre) segs") auto
  from handleEvent_emission [of e ?t] assms(4)
  have he: "handleEvent e ?t = (fst (handleEvent e ?t), Some (m, tab_listeners ?t))"
    by (simp add: prod_eq_iff)
  have "raceLoop listener segs l t (pre @ Ev e # post) =
          raceLoop listener (s # segs') ?l ?t (Ev e # post)"
    using raceLoop_quiet_prefix [OF assms(1,2,3)] d by simp
  also have "\<dots> = raceLoop listener (s # segs') ?l (fst (handleEvent e ?t)) post"
    using assms(5) by (subst raceLoop.simps) (subst he, simp)
  finally show ?thesis by (simp add: d)
qed

lemma unthrown_Nil [simp]: "unthrown [] l t ticks"
proof (induction ticks arbitrary: t)
  case Nil
  then show ?case by simp
next
  case (Cons k ticks)
  then show ?case by (cases k) simp_all
qed

lemma background_append:
  "list_all (\<lambda>k. \<not> isReject k) xs \<Longrightarrow> unthrown segs l t xs \<Longrightarrow>
   background segs l t (xs @ ys) =
     background (drop (resumes xs) segs)
       (fst (background segs l t xs)) (snd (background segs l t xs)) ys"
proof (induction xs arbitrary: segs l t)
  case Nil
  then show ?case by simp
next
  case (Cons k xs)
  then have nr: "list_all (\<lambda>k. \<not> isReject k) xs" by simp
  show ?case
  proof (cases k)
    case (Ev e)
    with Cons.prems(2) have "unthrown segs l (fst (handleEvent e t)) xs" by simp
    then show ?thesis using Cons.IH [OF nr] Ev by simp
  next
    case Resume
    show ?thesis
    proof (cases segs)
      case Nil
      then show ?thesis using Cons.IH [OF nr, of "[]"] Resume by simp
    next
      case segs: (Cons s segs')
      obtain l1 t1 x where st: "s l t = (l1, t1, x)" by (rule segment_cases)
      from Cons.prems(2) st have x: "x = None" and u: "unthrown segs' l1 t1 xs"
        by (auto simp: segs Resume split: option.splits)
      show ?thesis using Cons.IH [OF nr u] by (simp add: Resume segs st x)
    qed
  next
    case (Reject x)
    with Cons.prems show ?thesis by simp
  qed
qed

lemma quiet_no_reject: "quiet xs \<Longrightarrow> list_all (\<lambda>k. \<not> isReject k) xs"
  by (induction xs) simp_all

text \<open>A segment that throws rejects the race, when no modal state was added before.\<close>

lemma raceLoop_throws:
  assumes "quiet pre" and "unthrown segs l t pre" and "resumes pre < length segs"
    and "(segs ! resumes pre) (fst (background segs l t pre)) (snd (background segs l t pre))
           = (l1, t1, Some err)"
  shows "raceLoop listener segs l t (pre @ Resume # post) =
     Some \<lparr>outcome = Inl err, shared = l1, tabAfter = t1, started = True,
           running = [], pending = post\<rparr>"
proof -
  from assms(3) have d: "drop (resumes pre) segs = segs ! resumes pre # drop (Suc (resumes pre)) segs"
    by (simp add: Cons_nth_drop_Suc)
  show ?thesis
    unfolding raceLoop_quiet_prefix [OF assms(1,2,3)] d using assms(4) by simp
qed

text \<open>
  Claim C1, as the code has it. The action is \<open>(s0, segs)\<close>. With a modal state present
  at the call the race returns the list of the tab at once: the action is not started, no
  tick is consumed, the tab is unchanged. With none present the first segment runs with
  the listener registered, leaving \<open>l2\<close> and \<open>t2\<close>. When the action then runs to its end
  over ticks \<open>pre\<close> that add no modal state, the race returns the empty list, with the
  variables and the tab as the whole action left them and the listener removed. When an
  event \<open>e\<close> adds the modal state \<open>m\<close> before the action has run to its end, and the
  listener of the race is still registered, the race returns exactly \<open>[m]\<close> at that
  event, and the action is not cancelled: its remaining segments are all still to run,
  and running them over the remaining ticks leaves what the action and the events would
  have left without the race. The listener is still registered whenever the action
  leaves the listeners of the tab alone; the listeners are then, after the action has
  run to its end, those before the call.
\<close>

theorem raceAgainstModalStates_first_wins:
  "(tab_modalStates t \<noteq> [] \<longrightarrow>
      raceAgainstModalStates (s0, segs) l t ticks =
        Some \<lparr>outcome = Inr (tab_modalStates t), shared = l, tabAfter = t,
              started = False, running = [], pending = ticks\<rparr>)
   \<and> (tab_modalStates t = [] \<and> s0 l (once (newListener t) t) = (l2, t2, None)
        \<and> quiet pre \<and> unthrown segs l2 t2 pre \<and> resumes pre = length segs
        \<and> (pre = [] \<or> last pre = Resume) \<longrightarrow>
      raceAgainstModalStates (s0, segs) l t (pre @ post) =
        Some \<lparr>outcome = Inr [], shared = fst (background segs l2 t2 pre),
              tabAfter = off (newListener t) (snd (background segs l2 t2 pre)),
              started = True, running = [], pending = post\<rparr>)
   \<and> (tab_modalStates t = [] \<and> s0 l (once (newListener t) t) = (l2, t2, None)
        \<and> quiet pre \<and> unthrown segs l2 t2 pre \<and> resumes pre < length segs
        \<and> modalOf e = Some m
        \<and> newListener t \<in> set (tab_listeners (snd (background segs l2 t2 pre))) \<longrightarrow>
      raceAgainstModalStates (s0, segs) l t (pre @ Ev e # post) =
        Some \<lparr>outcome = Inr [m], shared = fst (background segs l2 t2 pre),
              tabAfter = fst (handleEvent e (snd (background segs l2 t2 pre))),
              started = True, running = drop (resumes pre) segs, pending = post\<rparr>
      \<and> drop (resumes pre) segs \<noteq> []
      \<and> background (drop (resumes pre) segs) (fst (background segs l2 t2 pre))
          (fst (handleEvent e (snd (background segs l2 t2 pre)))) post
        = background segs l2 t2 (pre @ Ev e # post))
   \<and> (s0 l (once (newListener t) t) = (l2, t2, None) \<and> quiet pre
        \<and> list_all keepsListeners (s0 # segs) \<longrightarrow>
      tab_listeners (snd (background segs l2 t2 pre)) = tab_listeners t @ [newListener t]
      \<and> tab_listeners (off (newListener t) (snd (background segs l2 t2 pre)))
          = tab_listeners t)"
proof -
  let ?lid = "newListener t"
  have start: "raceAgainstModalStates (s0, segs) l t tk = raceLoop ?lid segs l2 t2 tk"
    if "tab_modalStates t = []" "s0 l (once ?lid t) = (l2, t2, None)" for tk
    using that by (simp add: raceAgainstModalStates_def Let_def)
  have a: "tab_modalStates t \<noteq> [] \<longrightarrow>
      raceAgainstModalStates (s0, segs) l t ticks =
        Some \<lparr>outcome = Inr (tab_modalStates t), shared = l, tabAfter = t,
              started = False, running = [], pending = ticks\<rparr>"
    by (simp add: raceAgainstModalStates_def)
  have b: "raceAgainstModalStates (s0, segs) l t (pre @ post) =
        Some \<lparr>outcome = Inr [], shared = fst (background segs l2 t2 pre),
              tabAfter = off ?lid (snd (background segs l2 t2 pre)),
              started = True, running = [], pending = post\<rparr>"
    if h: "tab_modalStates t = []" "s0 l (once ?lid t) = (l2, t2, None)"
      "quiet pre" "unthrown segs l2 t2 pre" "resumes pre = length segs"
      "pre = [] \<or> last pre = Resume"
    unfolding start [OF h(1,2)] by (rule raceLoop_completes [OF h(3,4,5,6)])
  have c: "raceAgainstModalStates (s0, segs) l t (pre @ Ev e # post) =
        Some \<lparr>outcome = Inr [m], shared = fst (background segs l2 t2 pre),
              tabAfter = fst (handleEvent e (snd (background segs l2 t2 pre))),
              started = True, running = drop (resumes pre) segs, pending = post\<rparr>
      \<and> drop (resumes pre) segs \<noteq> []
      \<and> background (drop (resumes pre) segs) (fst (background segs l2 t2 pre))
          (fst (handleEvent e (snd (background segs l2 t2 pre)))) post
        = background segs l2 t2 (pre @ Ev e # post)"
    if h: "tab_modalStates t = []" "s0 l (once ?lid t) = (l2, t2, None)"
      "quiet pre" "unthrown segs l2 t2 pre" "resumes pre < length segs"
      "modalOf e = Some m"
      "?lid \<in> set (tab_listeners (snd (background segs l2 t2 pre)))"
  proof -
    have bg: "background segs l2 t2 (pre @ Ev e # post) =
        background (drop (resumes pre) segs) (fst (background segs l2 t2 pre))
          (fst (handleEvent e (snd (background segs l2 t2 pre)))) post"
      using background_append [OF quiet_no_reject [OF h(3)] h(4), of "Ev e # post"]
      by simp
    show ?thesis
      unfolding start [OF h(1,2)] raceLoop_modal [OF h(3,4,5,6,7)] using h(5) bg by simp
  qed
  have d: "tab_listeners (snd (background segs l2 t2 pre)) = tab_listeners t @ [?lid]
      \<and> tab_listeners (off ?lid (snd (background segs l2 t2 pre))) = tab_listeners t"
    if h: "s0 l (once ?lid t) = (l2, t2, None)" "quiet pre"
      "list_all keepsListeners (s0 # segs)"
  proof -
    from h(3) have k0: "keepsListeners s0" and ks: "list_all keepsListeners segs" by simp_all
    from k0 h(1) have "tab_listeners t2 = tab_listeners (once ?lid t)"
      unfolding keepsListeners_def by (metis fst_conv snd_conv)
    then have lis: "tab_listeners (snd (background segs l2 t2 pre)) = tab_listeners t @ [?lid]"
      using background_listeners [OF h(2) ks, of l2 t2] by (simp add: once_def)
    then show ?thesis
      using newListener_fresh [of t] by (simp add: off_def remove1_append)
  qed
  from a b c d show ?thesis by blast
qed

text \<open>
  The theorem at \<open>updateTitle\<close> on a new tab: with a dialog already open the title is
  not asked for; a console message and then the answer of the driver give the empty
  list, with the title assigned and no listener left; a dialog that opens before the
  answer gives that dialog, and the answer, when it comes, is still assigned to the
  title. An action that registers a listener of its own loses the race to the dialog in
  the same way.
\<close>

theorem raceAgainstModalStates_first_wins_witness:
  "raceAgainstModalStates (updateTitleAction (js ''T'')) ()
      (fst (handleEvent (DialogEvent (js ''alert'') (js ''hi'') 1) (newTab (js ''u''))))
      [Resume]
     = Some \<lparr>outcome = Inr [DialogState (js ''alert'') (js ''hi'') 1], shared = (),
             tabAfter = fst (handleEvent (DialogEvent (js ''alert'') (js ''hi'') 1)
                               (newTab (js ''u''))),
             started = False, running = [], pending = [Resume]\<rparr>
   \<and> (\<exists>r. raceAgainstModalStates (updateTitleAction (js ''T'')) () (newTab (js ''u''))
             ([Ev (ConsoleEvent \<lparr>msgType = None, msgText = js ''x''\<rparr>), Resume] @ [])
           = Some r \<and> outcome r = Inr [] \<and> tab_lastTitle (tabAfter r) = js ''T''
             \<and> driverCalls (tabAfter r) = [PageTitle] \<and> tab_listeners (tabAfter r) = []
             \<and> running r = [] \<and> pending r = [])
   \<and> (\<exists>r. raceAgainstModalStates (updateTitleAction (js ''T'')) () (newTab (js ''u''))
             ([Ev (ConsoleEvent \<lparr>msgType = None, msgText = js ''x''\<rparr>)]
                @ Ev (DialogEvent (js ''alert'') (js ''hi'') 1) # [Resume])
           = Some r \<and> outcome r = Inr [DialogState (js ''alert'') (js ''hi'') 1]
             \<and> length (running r) = 1 \<and> pending r = [Resume]
             \<and> tab_lastTitle (tabAfter r) = js ''about:blank''
             \<and> tab_lastTitle (snd (background (running r) (shared r) (tabAfter r) (pending r)))
                 = js ''T'')
   \<and> (\<exists>r. raceAgainstModalStates listeningAction 0 (newTab (js ''u''))
             ([] @ Ev (DialogEvent (js ''alert'') (js ''hi'') 1) # [Resume])
           = Some r \<and> outcome r = Inr [DialogState (js ''alert'') (js ''hi'') 1]
             \<and> length (running r) = 1)"
proof -
  let ?s0 = "fst (updateTitleAction (js ''T''))" and ?segs = "snd (updateTitleAction (js ''T''))"
  let ?d = "DialogEvent (js ''alert'') (js ''hi'') 1"
  let ?m = "DialogState (js ''alert'') (js ''hi'') 1"
  let ?c = "Ev (ConsoleEvent \<lparr>msgType = None, msgText = js ''x''\<rparr>)"
  let ?t0 = "newTab (js ''u'')"
  let ?tm = "fst (handleEvent ?d ?t0)"
  let ?t2 = "(once (newListener ?t0) ?t0)\<lparr>driverCalls := [PageTitle]\<rparr>"
  have act: "(?s0, ?segs) = updateTitleAction (js ''T'')" by simp
  note th = raceAgainstModalStates_first_wins [where ?s0.0 = ?s0 and segs = ?segs, unfolded act]
  have m1: "tab_modalStates ?tm \<noteq> []" by (simp add: setModalState_def)
  have tm: "tab_modalStates ?tm = [?m]"
    by (simp add: setModalState_def newTab_def)
  have m0: "tab_modalStates ?t0 = []" by (simp add: newTab_def)
  have s0: "?s0 () (once (newListener ?t0) ?t0) = ((), ?t2, None)"
    by (simp add: updateTitleAction_def once_def newTab_def)
  have len: "length ?segs = 1" by (simp add: updateTitleAction_def)
  have a: "raceAgainstModalStates (updateTitleAction (js ''T'')) () ?tm [Resume]
     = Some \<lparr>outcome = Inr (tab_modalStates ?tm), shared = (), tabAfter = ?tm,
             started = False, running = [], pending = [Resume]\<rparr>"
    using th [where t = ?tm and l = "()" and ticks = "[Resume]", THEN conjunct1] m1 by blast
  have u1: "unthrown ?segs () ?t2 [?c, Resume]" "unthrown ?segs () ?t2 [?c]"
    by (simp_all add: updateTitleAction_def)
  have bg1: "tab_lastTitle (off (newListener ?t0) (snd (background ?segs () ?t2 [?c, Resume])))
               = js ''T''"
    "driverCalls (off (newListener ?t0) (snd (background ?segs () ?t2 [?c, Resume])))
               = [PageTitle]"
    "tab_listeners (off (newListener ?t0) (snd (background ?segs () ?t2 [?c, Resume]))) = []"
    by (simp_all add: updateTitleAction_def handleConsoleMessage_def off_def once_def
        newTab_def newListener_def)
  have b: "\<exists>r. raceAgainstModalStates (updateTitleAction (js ''T'')) () ?t0 ([?c, Resume] @ [])
           = Some r \<and> outcome r = Inr [] \<and> tab_lastTitle (tabAfter r) = js ''T''
             \<and> driverCalls (tabAfter r) = [PageTitle] \<and> tab_listeners (tabAfter r) = []
             \<and> running r = [] \<and> pending r = []"
    using th [where t = ?t0 and l = "()" and ?l2.0 = "()" and ?t2.0 = ?t2
          and pre = "[?c, Resume]" and post = "[]", THEN conjunct2, THEN conjunct1]
      m0 s0 len u1(1) bg1
    by simp
  have mem: "newListener ?t0 \<in> set (tab_listeners (snd (background ?segs () ?t2 [?c])))"
    by (simp add: handleConsoleMessage_def once_def)
  have bgT: "tab_lastTitle (snd (background ?segs () ?t2 ([?c] @ Ev ?d # [Resume]))) = js ''T''"
    "tab_lastTitle (fst (handleEvent ?d (snd (background ?segs () ?t2 [?c])))) = js ''about:blank''"
    by (simp_all add: updateTitleAction_def setModalState_def handleConsoleMessage_def
        once_def newTab_def)
  have c: "\<exists>r. raceAgainstModalStates (updateTitleAction (js ''T'')) () ?t0 ([?c] @ Ev ?d # [Resume])
           = Some r \<and> outcome r = Inr [?m]
             \<and> length (running r) = 1 \<and> pending r = [Resume]
             \<and> tab_lastTitle (tabAfter r) = js ''about:blank''
             \<and> tab_lastTitle (snd (background (running r) (shared r) (tabAfter r) (pending r)))
                 = js ''T''"
    using th [where t = ?t0 and l = "()" and ?l2.0 = "()" and ?t2.0 = ?t2
          and pre = "[?c]" and e = ?d and m = ?m and post = "[Resume]",
        THEN conjunct2, THEN conjunct2, THEN conjunct1] m0 s0 len u1(2) mem bgT
    by simp
  let ?n = "newListener (once (newListener ?t0) ?t0)"
  let ?tl = "once ?n (once (newListener ?t0) ?t0)"
  have actl: "(fst listeningAction, snd listeningAction) = listeningAction" by simp
  have sl: "fst listeningAction 0 (once (newListener ?t0) ?t0) = (?n, ?tl, None)"
    by (simp add: listeningAction_def)
  have hl: "length (snd listeningAction) = 1"
    "unthrown (snd listeningAction) ?n ?tl []"
    "newListener ?t0 \<in> set (tab_listeners (snd (background (snd listeningAction) ?n ?tl [])))"
    by (simp_all add: listeningAction_def once_def)
  have d: "\<exists>r. raceAgainstModalStates listeningAction 0 ?t0 ([] @ Ev ?d # [Resume])
           = Some r \<and> outcome r = Inr [?m] \<and> length (running r) = 1"
    using raceAgainstModalStates_first_wins [where ?s0.0 = "fst listeningAction"
          and segs = "snd listeningAction" and t = ?t0 and l = 0 and ?l2.0 = ?n
          and ?t2.0 = ?tl and pre = "[]" and e = ?d and m = ?m and post = "[Resume]",
        unfolded actl, THEN conjunct2, THEN conjunct2, THEN conjunct1] m0 sl hl
    by simp
  from a b c d show ?thesis unfolding tm by blast
qed

text \<open>
  Claim C1 as written holds for every action. An action that removes the listeners of
  \<open>modalState\<close> from the tab removes the listener of the race with them: a dialog that
  opens before the action has completed is then not returned, and the call returns the
  empty list when the action completes, with the dialog in the list of the tab.
\<close>

theorem raceAgainstModalStates_listener_removed_counterexample:
  "map_option outcome
     (raceAgainstModalStates removeAllListenersAction () (newTab (js ''u''))
        [Ev (DialogEvent (js ''alert'') (js ''hi'') 1), Resume]) = Some (Inr [])
   \<and> map_option (\<lambda>r. tab_modalStates (tabAfter r))
     (raceAgainstModalStates removeAllListenersAction () (newTab (js ''u''))
        [Ev (DialogEvent (js ''alert'') (js ''hi'') 1), Resume])
       = Some [DialogState (js ''alert'') (js ''hi'') 1]"
  by (simp add: raceAgainstModalStates_def removeAllListenersAction_def newTab_def once_def
        off_def setModalState_def Let_def)

section \<open>Properties of the capture\<close>

lemma capture_keepsListeners:
  "list_all keepsListeners (snd (captureAction engine selector maxLength full pageTitle))"
  by (simp add: captureAction_def keepsListeners_def split: sum.splits)

lemma capture_keepsRecent:
  "list_all keepsRecent (snd (captureAction engine selector maxLength full pageTitle))"
  by (simp add: captureAction_def keepsRecent_def split: sum.splits)

lemma capture_segments:
  "length (snd (captureAction engine selector maxLength full pageTitle)) = 2"
  by (simp add: captureAction_def)

lemma recent_handleEvent:
  "tab_recentConsoleMessages (fst (handleEvent e t)) = bufferAfter [e] (tab_recentConsoleMessages t)"
  by (cases e)
    (simp_all add: handleConsoleMessage_def onClose_def clearCollectedArtifacts_def
      setModalState_def handleNavigationStart_def handleNavigationComplete_def Let_def)

lemma bufferAfter_Cons: "bufferAfter (e # es) buf = bufferAfter es (bufferAfter [e] buf)"
  by (cases e) simp_all

lemma bufferAfter_append: "bufferAfter (xs @ ys) buf = bufferAfter ys (bufferAfter xs buf)"
proof (induction xs arbitrary: buf)
  case Nil
  then show ?case by simp
next
  case (Cons e xs)
  show ?case
    using Cons.IH [of "bufferAfter [e] buf"] bufferAfter_Cons [of e "xs @ ys" buf]
      bufferAfter_Cons [of e xs buf]
    by simp
qed

lemma recent_handleEvents:
  "tab_recentConsoleMessages (handleEvents es t) = bufferAfter es (tab_recentConsoleMessages t)"
proof (induction es arbitrary: t)
  case Nil
  then show ?case by simp
next
  case (Cons e es)
  show ?case
    using Cons.IH [of "fst (handleEvent e t)"] bufferAfter_Cons [of e es]
    by (simp add: recent_handleEvent)
qed

lemma recent_background:
  "list_all keepsRecent segs \<Longrightarrow>
   tab_recentConsoleMessages (snd (background segs l t ticks)) =
     bufferAfter (eventsOf ticks) (tab_recentConsoleMessages t)"
proof (induction ticks arbitrary: segs l t)
  case Nil
  then show ?case by simp
next
  case (Cons k ticks)
  show ?case
  proof (cases k)
    case (Ev e)
    show ?thesis
      using Cons.IH [OF Cons.prems, of l "fst (handleEvent e t)"] bufferAfter_Cons [of e "eventsOf ticks"]
      by (simp add: Ev recent_handleEvent)
  next
    case Resume
    show ?thesis
    proof (cases segs)
      case Nil
      then show ?thesis using Cons.IH [of "[]" l t] by (simp add: Resume)
    next
      case segs: (Cons s segs')
      obtain l1 t1 x where st: "s l t = (l1, t1, x)" by (rule segment_cases)
      from Cons.prems segs have k: "keepsRecent s" "list_all keepsRecent segs'" by simp_all
      from k(1) st have t1: "tab_recentConsoleMessages t1 = tab_recentConsoleMessages t"
        unfolding keepsRecent_def by (metis fst_conv snd_conv)
      show ?thesis
      proof (cases x)
        case None
        with t1 Cons.IH [OF k(2), of l1 t1] show ?thesis by (simp add: Resume segs st)
      next
        case (Some err)
        with t1 Cons.IH [of "[]" l1 t1] show ?thesis by (simp add: Resume segs st)
      qed
    qed
  next
    case (Reject x)
    show ?thesis using Cons.IH [of "[]" l t] by (simp add: Reject)
  qed
qed

lemma background_no_segments: "fst (background [] l t ticks) = l"
proof (induction ticks arbitrary: t)
  case Nil
  then show ?case by simp
next
  case (Cons k ticks)
  then show ?case by (cases k) simp_all
qed

text \<open>Segments that never throw, and ticks that resume none, throw nothing.\<close>

lemma unthrown_never:
  "list_all (\<lambda>s. \<forall>l t. snd (snd (s l t)) = None) segs \<Longrightarrow> unthrown segs l t ticks"
proof (induction ticks arbitrary: segs l t)
  case Nil
  then show ?case by simp
next
  case (Cons k ticks)
  show ?case
  proof (cases k)
    case (Ev e)
    with Cons show ?thesis by simp
  next
    case Resume
    show ?thesis
    proof (cases segs)
      case Nil
      then show ?thesis by simp
    next
      case segs: (Cons s segs')
      obtain l1 t1 x where st: "s l t = (l1, t1, x)" by (rule segment_cases)
      from Cons.prems segs have k: "\<forall>l t. snd (snd (s l t)) = None"
        "list_all (\<lambda>s. \<forall>l t. snd (snd (s l t)) = None) segs'" by simp_all
      from k(1) st have "x = None" by (metis snd_conv)
      with Cons.IH [OF k(2), of l1 t1] show ?thesis by (simp add: Resume segs st)
    qed
  next
    case (Reject x)
    then show ?thesis by simp
  qed
qed

lemma unthrown_no_resume: "resumes ticks = 0 \<Longrightarrow> unthrown segs l t ticks"
proof (induction ticks arbitrary: t)
  case Nil
  then show ?case by simp
next
  case (Cons k ticks)
  then show ?case by (cases k) simp_all
qed

lemma capture_unthrown:
  assumes "selectedText engine selector full = Inr snapshot0"
  shows "unthrown (snd (captureAction engine selector maxLength full pageTitle)) l t ticks"
  by (rule unthrown_never) (simp add: captureAction_def assms)

text \<open>
  When the action has run to its end, the shared variables are those its last segment
  left: the events of the page do not touch them.
\<close>

lemma background_last_segment:
  "quiet pre \<Longrightarrow> unthrown segs l t pre \<Longrightarrow> resumes pre = length segs \<Longrightarrow> segs \<noteq> [] \<Longrightarrow>
   \<exists>l0 t0. fst (background segs l t pre) = fst (last segs l0 t0)"
proof (induction pre arbitrary: segs l t)
  case Nil
  then show ?case by simp
next
  case (Cons k pre)
  from Cons.prems(4) obtain s segs' where segs: "segs = s # segs'" by (cases segs) auto
  show ?case
  proof (cases k)
    case (Ev e)
    with Cons.prems have "quiet pre" "unthrown segs l (fst (handleEvent e t)) pre"
      "resumes pre = length segs" by simp_all
    from Cons.IH [OF this Cons.prems(4)] show ?thesis by (simp add: Ev)
  next
    case Resume
    obtain l1 t1 x where st: "s l t = (l1, t1, x)" by (rule segment_cases)
    from Cons.prems(2) st have x: "x = None" and u: "unthrown segs' l1 t1 pre"
      by (auto simp: segs Resume split: option.splits)
    from Cons.prems segs Resume have q: "quiet pre" "resumes pre = length segs'" by simp_all
    show ?thesis
    proof (cases "segs' = []")
      case True
      have "fst (background segs l t (k # pre)) = l1"
        by (simp add: segs Resume st x True background_no_segments)
      also have "l1 = fst (last segs l t)" by (simp add: segs True st)
      finally show ?thesis by blast
    next
      case False
      from Cons.IH [OF q(1) u q(2) False] False show ?thesis by (simp add: segs Resume st x)
    qed
  next
    case (Reject x)
    with Cons.prems show ?thesis by simp
  qed
qed

text \<open>
  While the last segment has not run, and the others leave \<open>tabSnapshot\<close> as it is,
  \<open>tabSnapshot\<close> is what it was at the call.
\<close>

lemma background_keeps_tabSnapshot:
  "resumes pre < length segs \<Longrightarrow>
   list_all (\<lambda>s. \<forall>l t. tabSnapshot (fst (s l t)) = tabSnapshot l) (butlast segs) \<Longrightarrow>
   tabSnapshot (fst (background segs l t pre)) = tabSnapshot l"
proof (induction pre arbitrary: segs l t)
  case Nil
  then show ?case by simp
next
  case (Cons k pre)
  from Cons.prems(1) obtain s segs' where segs: "segs = s # segs'" by (cases segs) auto
  show ?case
  proof (cases k)
    case (Ev e)
    with Cons.prems have "resumes pre < length segs" by simp
    from Cons.IH [OF this Cons.prems(2)] show ?thesis by (simp add: Ev)
  next
    case Resume
    with Cons.prems segs have q: "resumes pre < length segs'" by simp
    then have ne: "segs' \<noteq> []" by auto
    obtain l1 t1 x where st: "s l t = (l1, t1, x)" by (rule segment_cases)
    from Cons.prems(2) segs ne
    have k: "\<forall>l t. tabSnapshot (fst (s l t)) = tabSnapshot l"
      "list_all (\<lambda>s. \<forall>l t. tabSnapshot (fst (s l t)) = tabSnapshot l) (butlast segs')"
      by simp_all
    from k(1) st have l1: "tabSnapshot l1 = tabSnapshot l" by (metis fst_conv)
    show ?thesis
    proof (cases x)
      case None
      with l1 Cons.IH [OF q k(2), of l1 t1] show ?thesis by (simp add: segs Resume st)
    next
      case (Some err)
      with l1 show ?thesis by (simp add: segs Resume st background_no_segments)
    qed
  next
    case (Reject x)
    have "fst (background [] l t pre) = l" by (rule background_no_segments)
    then show ?thesis by (simp add: Reject)
  qed
qed

lemma capture_butlast_keeps:
  "list_all (\<lambda>s. \<forall>l t. tabSnapshot (fst (s l t)) = tabSnapshot l)
     (butlast (snd (captureAction engine selector maxLength full pageTitle)))"
  by (simp add: captureAction_def split: sum.splits)

lemma capture_last_sets:
  "\<exists>snap. tabSnapshot (fst (last (snd (captureAction engine selector maxLength full pageTitle)) l0 t0))
            = Some snap
     \<and> title snap = pageTitle \<and> modalStates snap = [] \<and> consoleMessages snap = []
     \<and> downloads snap = tab_downloads t0 \<and> url snap = urlRead l0
     \<and> ariaSnapshot snap = snapshot l0"
  by (simp add: captureAction_def)

text \<open>The capture behind the guard of the race: the first segment has run.\<close>

lemma capture_started:
  assumes "tab_modalStates t = []"
  shows "raceAgainstModalStates (captureAction engine selector maxLength full pageTitle)
           noCaptureVars t ticks =
         raceLoop (newListener t) (snd (captureAction engine selector maxLength full pageTitle))
           noCaptureVars
           ((once (newListener t) t)\<lparr>driverCalls := driverCalls t @ [SnapshotForAI]\<rparr>) ticks"
  using assms
  by (simp add: raceAgainstModalStates_def Let_def captureAction_def once_def)

lemma capture_success:
  assumes "tab_modalStates t = []" and "quiet pre" and "resumes pre = 2"
    and "last pre = Resume" and "selectedText engine selector full = Inr snapshot0"
  shows "\<exists>snap t' r.
           captureSnapshotInternal engine selector maxLength full pageTitle t (pre @ post)
             = Some (Inr snap, t', r)
         \<and> consoleMessages snap = bufferAfter (eventsOf pre) (tab_recentConsoleMessages t)
         \<and> tab_recentConsoleMessages t' = []
         \<and> title snap = pageTitle \<and> modalStates snap = []
         \<and> outcome r = Inr [] \<and> pending r = post \<and> running r = []"
proof -
  let ?segs = "snd (captureAction engine selector maxLength full pageTitle)"
  let ?t2 = "(once (newListener t) t)\<lparr>driverCalls := driverCalls t @ [SnapshotForAI]\<rparr>"
  let ?bg = "background ?segs noCaptureVars ?t2 pre"
  have len: "resumes pre = length ?segs" using assms(3) by (simp add: capture_segments)
  have ne: "?segs \<noteq> []" by (simp add: captureAction_def)
  note u = capture_unthrown [OF assms(5), of maxLength pageTitle noCaptureVars ?t2 pre]
  have race: "raceAgainstModalStates (captureAction engine selector maxLength full pageTitle)
           noCaptureVars t (pre @ post) =
     Some \<lparr>outcome = Inr [], shared = fst ?bg, tabAfter = off (newListener t) (snd ?bg),
           started = True, running = [], pending = post\<rparr>"
    unfolding capture_started [OF assms(1)]
    using raceLoop_completes [OF assms(2) u len, of "newListener t" post] assms(4)
    by simp
  from background_last_segment [OF assms(2) u len ne]
  obtain l0 t0 where last: "fst ?bg = fst (last ?segs l0 t0)" by blast
  from capture_last_sets [of engine selector maxLength full pageTitle l0 t0] last
  obtain snap0 where snap0: "tabSnapshot (fst ?bg) = Some snap0" "title snap0 = pageTitle"
    "modalStates snap0 = []" by auto
  have rec: "tab_recentConsoleMessages (off (newListener t) (snd ?bg)) =
      bufferAfter (eventsOf pre) (tab_recentConsoleMessages t)"
    using recent_background [OF capture_keepsRecent, of engine selector maxLength full pageTitle
        noCaptureVars ?t2 pre]
    by (simp add: off_def once_def)
  show ?thesis
    unfolding captureSnapshotInternal_def race using snap0 rec by simp
qed

lemma capture_interrupted:
  assumes "tab_modalStates t = []" and "quiet pre" and "resumes pre < 2"
    and "modalOf e = Some m"
    and "resumes pre = 0 \<or> selectedText engine selector full = Inr snapshot0"
  shows "\<exists>t' r.
           captureSnapshotInternal engine selector maxLength full pageTitle t (pre @ Ev e # post)
             = Some (Inr \<lparr>url = pageUrl t', title = [], ariaSnapshot = [], modalStates = [m],
                         consoleMessages = [], downloads = []\<rparr>, t', r)
         \<and> tab_recentConsoleMessages t' =
             bufferAfter (eventsOf pre @ [e]) (tab_recentConsoleMessages t)
         \<and> outcome r = Inr [m] \<and> pending r = post \<and> running r \<noteq> []"
proof -
  let ?segs = "snd (captureAction engine selector maxLength full pageTitle)"
  let ?t2 = "(once (newListener t) t)\<lparr>driverCalls := driverCalls t @ [SnapshotForAI]\<rparr>"
  let ?bg = "background ?segs noCaptureVars ?t2 pre"
  have len: "resumes pre < length ?segs" using assms(3) by (simp add: capture_segments)
  from assms(5) have u: "unthrown ?segs noCaptureVars ?t2 pre"
  proof
    assume "resumes pre = 0"
    then show ?thesis by (rule unthrown_no_resume)
  next
    assume "selectedText engine selector full = Inr snapshot0"
    then show ?thesis by (rule capture_unthrown)
  qed
  have "tab_listeners (snd ?bg) = tab_listeners ?t2"
    using background_listeners [OF assms(2), of ?segs noCaptureVars ?t2]
      capture_keepsListeners [of engine selector maxLength full pageTitle]
    by simp
  then have mem: "newListener t \<in> set (tab_listeners (snd ?bg))" by (simp add: once_def)
  have race: "raceAgainstModalStates (captureAction engine selector maxLength full pageTitle)
           noCaptureVars t (pre @ Ev e # post) =
     Some \<lparr>outcome = Inr [m], shared = fst ?bg, tabAfter = fst (handleEvent e (snd ?bg)),
           started = True, running = drop (resumes pre) ?segs, pending = post\<rparr>"
    unfolding capture_started [OF assms(1)]
    using raceLoop_modal [OF assms(2) u len assms(4) mem] by simp
  have none: "tabSnapshot (fst ?bg) = None"
    using background_keeps_tabSnapshot [OF len capture_butlast_keeps, of noCaptureVars ?t2]
    by (simp add: noCaptureVars_def)
  have "tab_recentConsoleMessages (snd ?bg) =
      bufferAfter (eventsOf pre) (tab_recentConsoleMessages t)"
    using recent_background [OF capture_keepsRecent, of engine selector maxLength full pageTitle
        noCaptureVars ?t2 pre]
    by (simp add: once_def)
  then have rec: "tab_recentConsoleMessages (fst (handleEvent e (snd ?bg))) =
      bufferAfter (eventsOf pre @ [e]) (tab_recentConsoleMessages t)"
    by (simp add: recent_handleEvent bufferAfter_append)
  show ?thesis
    unfolding captureSnapshotInternal_def race using none rec len by simp
qed

text \<open>
  When the extraction throws, the capture is rejected with its error at the first
  resumption, and nothing is taken from the buffer.
\<close>

lemma capture_throws:
  assumes "tab_modalStates t = []" and "quiet pre" and "resumes pre = 0"
    and "selectedText engine selector full = Inl err"
  shows "\<exists>t' r.
           captureSnapshotInternal engine selector maxLength full pageTitle t (pre @ Resume # post)
             = Some (Inl err, t', r)
         \<and> tab_recentConsoleMessages t' =
             bufferAfter (eventsOf pre) (tab_recentConsoleMessages t)
         \<and> outcome r = Inl err \<and> pending r = post \<and> running r = []"
proof -
  let ?segs = "snd (captureAction engine selector maxLength full pageTitle)"
  let ?t2 = "(once (newListener t) t)\<lparr>driverCalls := driverCalls t @ [SnapshotForAI]\<rparr>"
  let ?bg = "background ?segs noCaptureVars ?t2 pre"
  have len: "resumes pre < length ?segs" using assms(3) by (simp add: capture_segments)
  note u = unthrown_no_resume [OF assms(3), of ?segs noCaptureVars ?t2]
  have seg: "(?segs ! resumes pre) (fst ?bg) (snd ?bg) = (fst ?bg, snd ?bg, Some err)"
    by (simp add: assms(3,4) captureAction_def)
  have race: "raceAgainstModalStates (captureAction engine selector maxLength full pageTitle)
           noCaptureVars t (pre @ Resume # post) =
     Some \<lparr>outcome = Inl err, shared = fst ?bg, tabAfter = snd ?bg,
           started = True, running = [], pending = post\<rparr>"
    unfolding capture_started [OF assms(1)]
    by (rule raceLoop_throws [OF assms(2) u len seg])
  have rec: "tab_recentConsoleMessages (snd ?bg) =
      bufferAfter (eventsOf pre) (tab_recentConsoleMessages t)"
    using recent_background [OF capture_keepsRecent, of engine selector maxLength full pageTitle
        noCaptureVars ?t2 pre]
    by (simp add: once_def)
  show ?thesis
    unfolding captureSnapshotInternal_def race using rec by simp
qed

lemma capture_modal_present:
  assumes "tab_modalStates t \<noteq> []"
  shows "captureSnapshotInternal engine selector maxLength full pageTitle t ticks =
     Some (Inr \<lparr>url = pageUrl t, title = [], ariaSnapshot = [],
                modalStates = tab_modalStates t, consoleMessages = [], downloads = []\<rparr>,
           t,
           \<lparr>outcome = Inr (tab_modalStates t), shared = noCaptureVars, tabAfter = t,
            started = False, running = [], pending = ticks\<rparr>)"
  using assms
  by (simp add: captureSnapshotInternal_def raceAgainstModalStates_def noCaptureVars_def)

text \<open>
  Claim C10. With a modal state present at the call, a capture (full or partial) does
  not start its action: no call reaches the page and no tick is consumed. The snapshot
  returned has the url of the page, an empty title, an empty aria snapshot, the modal
  states of the tab, no console messages and no downloads; the tab, and with it the
  buffer of recent console messages, is unchanged.
\<close>

theorem capture_with_modal_present:
  assumes "tab_modalStates t \<noteq> []"
  shows "\<exists>snap t' r.
           capturePartialSnapshot engine selector maxLength full pageTitle t ticks
             = Some (Inr snap, t', r)
         \<and> captureSnapshot engine full pageTitle t ticks = Some (Inr snap, t', r)
         \<and> \<not> started r \<and> pending r = ticks \<and> driverCalls t' = driverCalls t
         \<and> url snap = pageUrl t \<and> title snap = [] \<and> ariaSnapshot snap = []
         \<and> modalStates snap = tab_modalStates t
         \<and> consoleMessages snap = [] \<and> downloads snap = []
         \<and> tab_recentConsoleMessages t' = tab_recentConsoleMessages t \<and> t' = t"
  unfolding capturePartialSnapshot_def captureSnapshot_def
  by (simp add: capture_modal_present [OF assms])

text \<open>
  The theorem at a tab with an open dialog, one console message and one download: the
  snapshot carries neither the message nor the download, and the message stays in the
  buffer.
\<close>

theorem capture_with_modal_present_witness:
  "\<exists>snap t' r.
     captureSnapshot (\<lambda>full selector. Inr full) (js ''- main'') (js ''Title'')
        (handleEvents
          [ConsoleEvent \<lparr>msgType = Some (js ''log''), msgText = js ''x''\<rparr>,
           DownloadStarted \<lparr>download = 2, finished = False, outputFile = js ''f''\<rparr>,
           DialogEvent (js ''alert'') (js ''hi'') 1] (newTab (js ''u'')))
        [Resume, Resume]
       = Some (Inr snap, t', r)
     \<and> \<not> started r \<and> driverCalls t' = []
     \<and> url snap = js ''u'' \<and> title snap = [] \<and> ariaSnapshot snap = []
     \<and> modalStates snap = [DialogState (js ''alert'') (js ''hi'') 1]
     \<and> consoleMessages snap = [] \<and> downloads snap = []
     \<and> tab_recentConsoleMessages t' = [\<lparr>msgType = Some (js ''log''), msgText = js ''x''\<rparr>]"
proof -
  let ?t = "handleEvents
          [ConsoleEvent \<lparr>msgType = Some (js ''log''), msgText = js ''x''\<rparr>,
           DownloadStarted \<lparr>download = 2, finished = False, outputFile = js ''f''\<rparr>,
           DialogEvent (js ''alert'') (js ''hi'') 1] (newTab (js ''u''))"
  have m: "tab_modalStates ?t = [DialogState (js ''alert'') (js ''hi'') 1]"
    by (simp add: newTab_def setModalState_def handleConsoleMessage_def)
  then have ne: "tab_modalStates ?t \<noteq> []" by simp
  have f: "driverCalls ?t = []" "pageUrl ?t = js ''u''"
    "tab_recentConsoleMessages ?t = [\<lparr>msgType = Some (js ''log''), msgText = js ''x''\<rparr>]"
    by (simp_all add: newTab_def setModalState_def handleConsoleMessage_def)
  from capture_with_modal_present [OF ne, of "\<lambda>full selector. Inr full" None None
      "js ''- main''" "js ''Title''" "[Resume, Resume]"]
  show ?thesis unfolding m f by blast
qed


lemma eventsOf_append: "eventsOf (xs @ ys) = eventsOf xs @ eventsOf ys"
proof (induction xs)
  case Nil
  then show ?case by simp
next
  case (Cons k xs)
  then show ?case by (cases k) simp_all
qed

lemma consoleTicks_append: "consoleTicks (xs @ ys) = consoleTicks xs @ consoleTicks ys"
  by (simp add: consoleTicks_def eventsOf_append map_filter_def)

lemma bufferAfter_subseq:
  "subseq (bufferAfter es buf) (buf @ List.map_filter consoleOf es)"
proof (induction es arbitrary: buf)
  case Nil
  then show ?case by simp
next
  case (Cons e es)
  show ?case
  proof (cases e)
    case (ConsoleEvent m)
    then show ?thesis using Cons [of "buf @ [m]"] by (simp add: map_filter_simps)
  next
    case (PageErrorEvent m)
    then show ?thesis using Cons [of "buf @ [m]"] by (simp add: map_filter_simps)
  next
    case CloseEvent
    from Cons [of "[]"] have "subseq (bufferAfter es []) (buf @ List.map_filter consoleOf es)"
      by (simp add: list_emb_append2)
    then show ?thesis by (simp add: CloseEvent map_filter_simps)
  qed (use Cons [of buf] in \<open>simp_all add: map_filter_simps\<close>)
qed

lemma raceLoop_consumed:
  "list_all keepsRecent segs \<Longrightarrow> raceLoop listener segs l t ticks = Some r \<Longrightarrow>
   \<exists>consumed. ticks = consumed @ pending r
     \<and> tab_recentConsoleMessages (tabAfter r) =
         bufferAfter (eventsOf consumed) (tab_recentConsoleMessages t)
     \<and> list_all keepsRecent (running r)"
proof (induction ticks arbitrary: segs l t)
  case Nil
  then show ?case by (cases segs) (auto simp: off_def)
next
  case (Cons k ticks)
  show ?case
  proof (cases segs)
    case Nil
    with Cons.prems(2) have "pending r = k # ticks"
      "tab_recentConsoleMessages (tabAfter r) = tab_recentConsoleMessages t" "running r = []"
      by (auto simp: off_def)
    then show ?thesis by (intro exI [of _ "[]"]) simp
  next
    case segs: (Cons s segs')
    show ?thesis
    proof (cases k)
      case (Ev e)
      obtain t1 em where he: "handleEvent e t = (t1, em)" by (cases "handleEvent e t")
      then have t1: "tab_recentConsoleMessages t1 = bufferAfter [e] (tab_recentConsoleMessages t)"
        using recent_handleEvent [of e t] by simp
      show ?thesis
      proof (cases "\<exists>m called. em = Some (m, called) \<and> listener \<in> set called")
        case True
        then obtain m called where em: "em = Some (m, called)" "listener \<in> set called" by blast
        with Cons.prems(2) have "pending r = ticks" "tabAfter r = t1" "running r = s # segs'"
          by (auto simp: segs Ev he)
        with t1 Cons.prems(1) segs show ?thesis
          by (intro exI [of _ "[Ev e]"]) (simp add: Ev)
      next
        case False
        then have "raceLoop listener segs l t (k # ticks) = raceLoop listener segs l t1 ticks"
          by (auto simp: segs Ev he split: option.splits)
        with Cons.prems(2) have "raceLoop listener segs l t1 ticks = Some r" by simp
        from Cons.IH [OF Cons.prems(1) this] obtain consumed where
          c: "ticks = consumed @ pending r"
          "tab_recentConsoleMessages (tabAfter r) =
             bufferAfter (eventsOf consumed) (tab_recentConsoleMessages t1)"
          "list_all keepsRecent (running r)" by blast
        have "tab_recentConsoleMessages (tabAfter r) =
            bufferAfter (eventsOf (Ev e # consumed)) (tab_recentConsoleMessages t)"
          using c(2) t1 bufferAfter_Cons [of e "eventsOf consumed"] by simp
        with c(1,3) show ?thesis by (intro exI [of _ "Ev e # consumed"]) (simp add: Ev)
      qed
    next
      case Resume
      obtain l1 t1 x where st: "s l t = (l1, t1, x)" by (rule segment_cases)
      from Cons.prems(1) segs have k: "keepsRecent s" "list_all keepsRecent segs'" by simp_all
      from k(1) st have t1: "tab_recentConsoleMessages t1 = tab_recentConsoleMessages t"
        unfolding keepsRecent_def by (metis fst_conv snd_conv)
      show ?thesis
      proof (cases x)
        case None
        with Cons.prems(2) have "raceLoop listener segs' l1 t1 ticks = Some r"
          by (simp add: segs Resume st)
        from Cons.IH [OF k(2) this] obtain consumed where
          c: "ticks = consumed @ pending r"
          "tab_recentConsoleMessages (tabAfter r) =
             bufferAfter (eventsOf consumed) (tab_recentConsoleMessages t1)"
          "list_all keepsRecent (running r)" by blast
        with t1 show ?thesis by (intro exI [of _ "Resume # consumed"]) (simp add: Resume)
      next
        case (Some err)
        with Cons.prems(2) have "pending r = ticks" "tabAfter r = t1" "running r = []"
          by (auto simp: segs Resume st)
        with t1 show ?thesis by (intro exI [of _ "[Resume]"]) (simp add: Resume)
      qed
    next
      case (Reject x)
      with Cons.prems(2) segs have "pending r = ticks" "tabAfter r = t" "running r = []"
        by auto
      then show ?thesis by (intro exI [of _ "[Reject x]"]) (simp add: Reject)
    qed
  qed
qed

text \<open>
  One capture, with what follows it up to the next operation: the messages it attaches,
  followed by the buffer it leaves, are taken in order from the buffer it found followed
  by the messages that arrived.
\<close>

lemma capture_accounting:
  assumes "captureSnapshotInternal engine selector maxLength full pageTitle t ticks = Some (res, t1, r)"
  shows "subseq
           ((case res of Inl e \<Rightarrow> [] | Inr snap \<Rightarrow> consoleMessages snap)
              @ tab_recentConsoleMessages (snd (background (running r) (shared r) t1 (pending r))))
           (tab_recentConsoleMessages t @ consoleTicks ticks)"
proof (cases "tab_modalStates t = []")
  case False
  from assms capture_modal_present [OF False, of engine selector maxLength full pageTitle ticks]
  have r: "res = Inr \<lparr>url = pageUrl t, title = [], ariaSnapshot = [],
                modalStates = tab_modalStates t, consoleMessages = [], downloads = []\<rparr>"
    "t1 = t" "running r = []" "pending r = ticks" by auto
  have "tab_recentConsoleMessages (snd (background [] (shared r) t ticks)) =
      bufferAfter (eventsOf ticks) (tab_recentConsoleMessages t)"
    by (rule recent_background) simp
  then show ?thesis using bufferAfter_subseq [of "eventsOf ticks" "tab_recentConsoleMessages t"]
    by (simp add: r consoleTicks_def)
next
  case True
  let ?segs = "snd (captureAction engine selector maxLength full pageTitle)"
  let ?t2 = "(once (newListener t) t)\<lparr>driverCalls := driverCalls t @ [SnapshotForAI]\<rparr>"
  let ?R = "tab_recentConsoleMessages t"
  from assms have race: "raceLoop (newListener t) ?segs noCaptureVars ?t2 ticks = Some r"
    unfolding captureSnapshotInternal_def capture_started [OF True]
    by (auto split: option.splits sum.splits)
  from raceLoop_consumed [OF capture_keepsRecent race] obtain consumed where
    c: "ticks = consumed @ pending r"
    "tab_recentConsoleMessages (tabAfter r) = bufferAfter (eventsOf consumed) ?R"
    "list_all keepsRecent (running r)"
    by (auto simp: once_def)
  let ?B = "bufferAfter (eventsOf consumed) ?R"
  have ct: "consoleTicks ticks = consoleTicks consumed @ consoleTicks (pending r)"
    using c(1) consoleTicks_append by metis
  have B: "subseq ?B (?R @ consoleTicks consumed)"
    using bufferAfter_subseq by (simp add: consoleTicks_def)
  have bg: "tab_recentConsoleMessages (snd (background (running r) (shared r) u (pending r))) =
      bufferAfter (eventsOf (pending r)) (tab_recentConsoleMessages u)" for u
    by (rule recent_background [OF c(3)])
  have kept: "subseq (bufferAfter (eventsOf (pending r)) ?B) (?R @ consoleTicks ticks)"
  proof -
    have "subseq (bufferAfter (eventsOf (pending r)) ?B) (?B @ consoleTicks (pending r))"
      using bufferAfter_subseq by (simp add: consoleTicks_def)
    also have "subseq (?B @ consoleTicks (pending r))
        ((?R @ consoleTicks consumed) @ consoleTicks (pending r))"
      using B by (intro list_emb_append_mono) simp_all
    finally show ?thesis by (simp add: ct)
  qed
  have drained: "subseq (?B @ bufferAfter (eventsOf (pending r)) []) (?R @ consoleTicks ticks)"
  proof -
    have "subseq (bufferAfter (eventsOf (pending r)) []) (consoleTicks (pending r))"
      using bufferAfter_subseq [of "eventsOf (pending r)" "[]"] by (simp add: consoleTicks_def)
    with B have "subseq (?B @ bufferAfter (eventsOf (pending r)) [])
        ((?R @ consoleTicks consumed) @ consoleTicks (pending r))"
      by (intro list_emb_append_mono)
    then show ?thesis by (simp add: ct)
  qed
  show ?thesis
  proof (cases "outcome r")
    case (Inl e)
    with assms have "res = Inl e" "t1 = tabAfter r"
      unfolding captureSnapshotInternal_def capture_started [OF True] race by simp_all
    then show ?thesis using kept by (simp add: bg c(2))
  next
    case (Inr ms)
    show ?thesis
    proof (cases "tabSnapshot (shared r)")
      case None
      with Inr assms obtain snap where "res = Inr snap" "consoleMessages snap = []"
        "t1 = tabAfter r"
        unfolding captureSnapshotInternal_def capture_started [OF True] race by auto
      then show ?thesis using kept by (simp add: bg c(2))
    next
      case (Some snap0)
      with Inr assms have "res = Inr (snap0\<lparr>consoleMessages := tab_recentConsoleMessages (tabAfter r)\<rparr>)"
        "t1 = (tabAfter r)\<lparr>tab_recentConsoleMessages := []\<rparr>"
        unfolding captureSnapshotInternal_def capture_started [OF True] race by simp_all
      then show ?thesis using drained by (simp add: bg c(2))
    qed
  qed
qed

lemma session_accounting:
  "subseq (concat (map consoleMessages (session engine t ops)))
     (tab_recentConsoleMessages t @ concat (map (\<lambda>op. consoleTicks (ticksOf op)) ops))"
proof (induction ops arbitrary: t)
  case Nil
  then show ?case by simp
next
  case (Cons op ops)
  let ?rest = "concat (map (\<lambda>op. consoleTicks (ticksOf op)) ops)"
  show ?case
  proof (cases op)
    case (ClearModal i)
    then show ?thesis
      using Cons [of "clearModalState i t"]
      by (simp add: clearModalState_def consoleTicks_def map_filter_simps)
  next
    case (Capture selector maxLength full pageTitle ticks)
    show ?thesis
    proof (cases "captureSnapshotInternal engine selector maxLength full pageTitle t ticks")
      case None
      then show ?thesis by (simp add: Capture)
    next
      case (Some x)
      then obtain res t1 r where
        cap: "captureSnapshotInternal engine selector maxLength full pageTitle t ticks = Some (res, t1, r)"
        by (cases x) auto
      let ?t2 = "snd (background (running r) (shared r) t1 (pending r))"
      let ?att = "case res of Inl e \<Rightarrow> [] | Inr snap \<Rightarrow> consoleMessages snap"
      have s: "concat (map consoleMessages (session engine t (op # ops))) =
          ?att @ concat (map consoleMessages (session engine ?t2 ops))"
        by (cases res) (simp_all add: Capture cap Let_def)
      have "subseq (?att @ concat (map consoleMessages (session engine ?t2 ops)))
          (?att @ tab_recentConsoleMessages ?t2 @ ?rest)"
        using Cons [of ?t2] by (intro list_emb_append_mono) simp_all
      also have "subseq (?att @ tab_recentConsoleMessages ?t2 @ ?rest)
          ((tab_recentConsoleMessages t @ consoleTicks ticks) @ ?rest)"
        using capture_accounting [OF cap] list_emb_append_mono [of "(=)" _ _ ?rest ?rest]
        by (metis append.assoc subseq_order.order_refl)
      finally have "subseq (?att @ concat (map consoleMessages (session engine ?t2 ops)))
          ((tab_recentConsoleMessages t @ consoleTicks ticks) @ ?rest)" .
      then show ?thesis unfolding s by (simp add: Capture)
    qed
  qed
qed


lemma modalStates_handleEvent:
  "modalOf e = None \<Longrightarrow> tab_modalStates (fst (handleEvent e t)) = tab_modalStates t"
  by (cases e)
    (simp_all add: handleConsoleMessage_def onClose_def clearCollectedArtifacts_def
      handleNavigationStart_def handleNavigationComplete_def Let_def)

lemma modalStates_background:
  "quiet pre \<Longrightarrow>
   list_all (\<lambda>s. \<forall>l t. tab_modalStates (fst (snd (s l t))) = tab_modalStates t) segs \<Longrightarrow>
   tab_modalStates (snd (background segs l t pre)) = tab_modalStates t"
proof (induction pre arbitrary: segs l t)
  case Nil
  then show ?case by simp
next
  case (Cons k pre)
  show ?case
  proof (cases k)
    case (Ev e)
    with Cons.prems have "modalOf e = None" "quiet pre" by simp_all
    with Cons.IH [of segs l "fst (handleEvent e t)"] Cons.prems(2) show ?thesis
      by (simp add: Ev modalStates_handleEvent)
  next
    case Resume
    from Cons.prems(1) have q: "quiet pre" by simp
    show ?thesis
    proof (cases segs)
      case Nil
      with Cons.IH [OF q, of "[]" l t] show ?thesis by (simp add: Resume)
    next
      case segs: (Cons s segs')
      obtain l1 t1 x where st: "s l t = (l1, t1, x)" by (rule segment_cases)
      from Cons.prems(2) segs
      have k: "\<forall>l t. tab_modalStates (fst (snd (s l t))) = tab_modalStates t"
        "list_all (\<lambda>s. \<forall>l t. tab_modalStates (fst (snd (s l t))) = tab_modalStates t) segs'"
        by simp_all
      from k(1) st have t1: "tab_modalStates t1 = tab_modalStates t" by (metis fst_conv snd_conv)
      show ?thesis
      proof (cases x)
        case None
        with t1 Cons.IH [OF q k(2), of l1 t1] show ?thesis by (simp add: Resume segs st)
      next
        case (Some err)
        with t1 Cons.IH [OF q, of "[]" l1 t1] show ?thesis by (simp add: Resume segs st)
      qed
    qed
  next
    case (Reject x)
    with Cons.prems show ?thesis by simp
  qed
qed

lemma capture_success_modalStates:
  assumes "tab_modalStates t = []" and "quiet pre" and "resumes pre = 2"
    and "last pre = Resume" and "selectedText engine selector full = Inr snapshot0"
    and "captureSnapshotInternal engine selector maxLength full pageTitle t (pre @ post)
           = Some (res, t', r)"
  shows "tab_modalStates t' = []"
proof -
  let ?segs = "snd (captureAction engine selector maxLength full pageTitle)"
  let ?t2 = "(once (newListener t) t)\<lparr>driverCalls := driverCalls t @ [SnapshotForAI]\<rparr>"
  let ?bg = "background ?segs noCaptureVars ?t2 pre"
  have len: "resumes pre = length ?segs" using assms(3) by (simp add: capture_segments)
  note u = capture_unthrown [OF assms(5), of maxLength pageTitle noCaptureVars ?t2 pre]
  have race: "raceAgainstModalStates (captureAction engine selector maxLength full pageTitle)
           noCaptureVars t (pre @ post) =
     Some \<lparr>outcome = Inr [], shared = fst ?bg, tabAfter = off (newListener t) (snd ?bg),
           started = True, running = [], pending = post\<rparr>"
    unfolding capture_started [OF assms(1)]
    using raceLoop_completes [OF assms(2) u len, of "newListener t" post] assms(4)
    by simp
  have keep: "list_all (\<lambda>s. \<forall>l t. tab_modalStates (fst (snd (s l t))) = tab_modalStates t) ?segs"
    by (simp add: captureAction_def split: sum.splits)
  have "tab_modalStates (snd ?bg) = tab_modalStates ?t2"
    by (rule modalStates_background [OF assms(2) keep])
  then have "tab_modalStates (off (newListener t) (snd ?bg)) = []"
    using assms(1) by (simp add: off_def once_def)
  with assms(6) show ?thesis
    unfolding captureSnapshotInternal_def race by (auto split: option.splits)
qed

lemma bufferAfter_no_console:
  "List.map_filter consoleOf es = [] \<Longrightarrow> bufferAfter es [] = []"
  using bufferAfter_subseq [of es "[]"] by simp

text \<open>
  Claim C2, as the code has it. A capture that completes over ticks \<open>pre\<close> without a modal
  state (its extraction, if it has a selector, returns a text) returns, as
  \<open>consoleMessages\<close>, the buffer of recent console messages as the events of \<open>pre\<close> have
  left it, and empties the buffer; a capture called next on the tab it leaves, over ticks
  without a console event, returns no console message. A capture interrupted by a modal
  state, or called with one present, returns no console message and takes nothing from the
  buffer; so does a capture whose extraction throws, which is rejected with that error.
  Over any sequence of captures, the messages of the snapshots, one snapshot after the
  other, are taken in order from the buffer at the start followed by the messages that
  arrived: no arrival is attached twice.
\<close>

theorem capture_drains_recent_console:
  "(tab_modalStates t = [] \<and> quiet pre \<and> resumes pre = 2 \<and> last pre = Resume
      \<and> selectedText engine selector full = Inr snapshot0 \<longrightarrow>
      (\<exists>snap t1 r.
         captureSnapshotInternal engine selector maxLength full pageTitle t (pre @ post)
           = Some (Inr snap, t1, r)
       \<and> outcome r = Inr []
       \<and> consoleMessages snap = tab_recentConsoleMessages (handleEvents (eventsOf pre) t)
       \<and> tab_recentConsoleMessages t1 = []
       \<and> (\<forall>pre2 post2 selector2 maxLength2 full2 pageTitle2 snapshot2.
            quiet pre2 \<and> resumes pre2 = 2 \<and> last pre2 = Resume \<and> consoleTicks pre2 = []
            \<and> selectedText engine selector2 full2 = Inr snapshot2 \<longrightarrow>
            (\<exists>snap2 t2 r2.
               captureSnapshotInternal engine selector2 maxLength2 full2 pageTitle2 t1
                   (pre2 @ post2)
                 = Some (Inr snap2, t2, r2)
             \<and> consoleMessages snap2 = []))))
   \<and> (tab_modalStates t = [] \<and> quiet pre \<and> resumes pre < 2 \<and> modalOf e = Some m
        \<and> (resumes pre = 0 \<or> selectedText engine selector full = Inr snapshot0) \<longrightarrow>
        (\<exists>snap t1 r.
           captureSnapshotInternal engine selector maxLength full pageTitle t (pre @ Ev e # post)
             = Some (Inr snap, t1, r)
         \<and> outcome r = Inr [m] \<and> modalStates snap = [m] \<and> consoleMessages snap = []
         \<and> tab_recentConsoleMessages t1 =
             tab_recentConsoleMessages (handleEvents (eventsOf pre @ [e]) t)))
   \<and> (tab_modalStates t = [] \<and> quiet pre \<and> resumes pre = 0
        \<and> selectedText engine selector full = Inl err \<longrightarrow>
        (\<exists>t1 r.
           captureSnapshotInternal engine selector maxLength full pageTitle t
               (pre @ Resume # post)
             = Some (Inl err, t1, r)
         \<and> tab_recentConsoleMessages t1 =
             tab_recentConsoleMessages (handleEvents (eventsOf pre) t)))
   \<and> (tab_modalStates t \<noteq> [] \<longrightarrow>
        (\<exists>snap r.
           captureSnapshotInternal engine selector maxLength full pageTitle t ticks
             = Some (Inr snap, t, r)
         \<and> consoleMessages snap = []))
   \<and> subseq (concat (map consoleMessages (session engine t ops)))
        (tab_recentConsoleMessages t @ concat (map (\<lambda>op. consoleTicks (ticksOf op)) ops))"
proof -
  have a: "\<exists>snap t1 r.
         captureSnapshotInternal engine selector maxLength full pageTitle t (pre @ post)
           = Some (Inr snap, t1, r)
       \<and> outcome r = Inr []
       \<and> consoleMessages snap = tab_recentConsoleMessages (handleEvents (eventsOf pre) t)
       \<and> tab_recentConsoleMessages t1 = []
       \<and> (\<forall>pre2 post2 selector2 maxLength2 full2 pageTitle2 snapshot2.
            quiet pre2 \<and> resumes pre2 = 2 \<and> last pre2 = Resume \<and> consoleTicks pre2 = []
            \<and> selectedText engine selector2 full2 = Inr snapshot2 \<longrightarrow>
            (\<exists>snap2 t2 r2.
               captureSnapshotInternal engine selector2 maxLength2 full2 pageTitle2 t1
                   (pre2 @ post2)
                 = Some (Inr snap2, t2, r2)
             \<and> consoleMessages snap2 = []))"
    if h: "tab_modalStates t = []" "quiet pre" "resumes pre = 2" "last pre = Resume"
      "selectedText engine selector full = Inr snapshot0"
  proof -
    from capture_success [OF h, of maxLength pageTitle post]
    obtain snap t1 r where
      c: "captureSnapshotInternal engine selector maxLength full pageTitle t (pre @ post)
            = Some (Inr snap, t1, r)"
      "consoleMessages snap = bufferAfter (eventsOf pre) (tab_recentConsoleMessages t)"
      "tab_recentConsoleMessages t1 = []" "outcome r = Inr []"
      by blast
    from capture_success_modalStates [OF h c(1)] have m1: "tab_modalStates t1 = []" .
    have next_capture: "\<exists>snap2 t2 r2.
               captureSnapshotInternal engine selector2 maxLength2 full2 pageTitle2 t1
                   (pre2 @ post2)
                 = Some (Inr snap2, t2, r2)
             \<and> consoleMessages snap2 = []"
      if h2: "quiet pre2" "resumes pre2 = 2" "last pre2 = Resume" "consoleTicks pre2 = []"
        "selectedText engine selector2 full2 = Inr snapshot2"
      for pre2 post2 selector2 maxLength2 full2 pageTitle2 snapshot2
    proof -
      from capture_success [OF m1 h2(1,2,3,5), of maxLength2 pageTitle2 post2]
      obtain snap2 t2 r2 where
        c2: "captureSnapshotInternal engine selector2 maxLength2 full2 pageTitle2 t1
               (pre2 @ post2)
            = Some (Inr snap2, t2, r2)"
        "consoleMessages snap2 = bufferAfter (eventsOf pre2) (tab_recentConsoleMessages t1)"
        by blast
      from h2(4) have "bufferAfter (eventsOf pre2) [] = []"
        by (intro bufferAfter_no_console) (simp add: consoleTicks_def)
      with c2 c(3) show ?thesis by auto
    qed
    have nc: "\<forall>pre2 post2 selector2 maxLength2 full2 pageTitle2 snapshot2.
            quiet pre2 \<and> resumes pre2 = 2 \<and> last pre2 = Resume \<and> consoleTicks pre2 = []
            \<and> selectedText engine selector2 full2 = Inr snapshot2 \<longrightarrow>
            (\<exists>snap2 t2 r2.
               captureSnapshotInternal engine selector2 maxLength2 full2 pageTitle2 t1
                   (pre2 @ post2)
                 = Some (Inr snap2, t2, r2)
             \<and> consoleMessages snap2 = [])"
      using next_capture by blast
    from c(2) have c2': "consoleMessages snap = tab_recentConsoleMessages (handleEvents (eventsOf pre) t)"
      by (simp add: recent_handleEvents)
    from c(1) c(4) c2' c(3) nc show ?thesis by blast
  qed
  have b: "\<exists>snap t1 r.
           captureSnapshotInternal engine selector maxLength full pageTitle t (pre @ Ev e # post)
             = Some (Inr snap, t1, r)
         \<and> outcome r = Inr [m] \<and> modalStates snap = [m] \<and> consoleMessages snap = []
         \<and> tab_recentConsoleMessages t1 =
             tab_recentConsoleMessages (handleEvents (eventsOf pre @ [e]) t)"
    if h: "tab_modalStates t = []" "quiet pre" "resumes pre < 2" "modalOf e = Some m"
      "resumes pre = 0 \<or> selectedText engine selector full = Inr snapshot0"
    using capture_interrupted [OF h, of maxLength pageTitle post]
    by (auto simp: recent_handleEvents)
  have b': "\<exists>t1 r.
           captureSnapshotInternal engine selector maxLength full pageTitle t
               (pre @ Resume # post)
             = Some (Inl err, t1, r)
         \<and> tab_recentConsoleMessages t1 =
             tab_recentConsoleMessages (handleEvents (eventsOf pre) t)"
    if h: "tab_modalStates t = []" "quiet pre" "resumes pre = 0"
      "selectedText engine selector full = Inl err"
    using capture_throws [OF h, of maxLength pageTitle post]
    by (auto simp: recent_handleEvents)
  have c: "\<exists>snap r.
           captureSnapshotInternal engine selector maxLength full pageTitle t ticks
             = Some (Inr snap, t, r)
         \<and> consoleMessages snap = []"
    if h: "tab_modalStates t \<noteq> []"
    by (simp add: capture_modal_present [OF h])
  note d = session_accounting [of engine t ops]
  from a b b' c d show ?thesis by blast
qed

text \<open>
  The theorem on a new tab, with an engine for which every selector outside the landmark
  names makes an invalid pattern. Two console messages arrive while a capture completes,
  and both are in its snapshot; the capture after it has none. A dialog that opens after
  the first message interrupts the capture, which leaves the message in the buffer. A
  capture with the selector \<open>main(\<close> is rejected when the snapshot of the page has
  arrived, and leaves the message in the buffer. In the sequence of a capture
  interrupted by a dialog, the dialog cleared, and a second capture, the first snapshot
  has no message and the second has both.
\<close>

theorem capture_drains_recent_console_witness:
  "(\<exists>snap t1 r.
       captureSnapshotInternal (\<lambda>full selector. Inl (js ''Invalid regular expression''))
          None None (js ''- main'') (js ''T'') (newTab (js ''u''))
          ([Ev (ConsoleEvent \<lparr>msgType = Some (js ''log''), msgText = js ''a''\<rparr>), Resume,
            Ev (ConsoleEvent \<lparr>msgType = None, msgText = js ''b''\<rparr>), Resume] @ [])
         = Some (Inr snap, t1, r)
     \<and> consoleMessages snap =
         [\<lparr>msgType = Some (js ''log''), msgText = js ''a''\<rparr>,
          \<lparr>msgType = None, msgText = js ''b''\<rparr>]
     \<and> tab_recentConsoleMessages t1 = []
     \<and> (\<exists>snap2 t2 r2.
           captureSnapshotInternal (\<lambda>full selector. Inl (js ''Invalid regular expression''))
              None None (js ''- main'') (js ''T'') t1
              ([Resume, Resume] @ []) = Some (Inr snap2, t2, r2)
         \<and> consoleMessages snap2 = []))
   \<and> (\<exists>snap t1 r.
       captureSnapshotInternal (\<lambda>full selector. Inl (js ''Invalid regular expression''))
          None None (js ''- main'') (js ''T'') (newTab (js ''u''))
          ([Ev (ConsoleEvent \<lparr>msgType = Some (js ''log''), msgText = js ''a''\<rparr>)]
             @ Ev (DialogEvent (js ''alert'') (js ''hi'') 1) # [Resume, Resume])
         = Some (Inr snap, t1, r)
     \<and> modalStates snap = [DialogState (js ''alert'') (js ''hi'') 1]
     \<and> consoleMessages snap = []
     \<and> tab_recentConsoleMessages t1 = [\<lparr>msgType = Some (js ''log''), msgText = js ''a''\<rparr>])
   \<and> (\<exists>t1 r.
       captureSnapshotInternal (\<lambda>full selector. Inl (js ''Invalid regular expression''))
          (Some (js ''main('')) None (js ''- main'') (js ''T'') (newTab (js ''u''))
          ([Ev (ConsoleEvent \<lparr>msgType = Some (js ''log''), msgText = js ''a''\<rparr>)]
             @ Resume # [Resume])
         = Some (Inl (js ''Invalid regular expression''), t1, r)
     \<and> tab_recentConsoleMessages t1 = [\<lparr>msgType = Some (js ''log''), msgText = js ''a''\<rparr>])
   \<and> map consoleMessages
        (session (\<lambda>full selector. Inl (js ''Invalid regular expression'')) (newTab (js ''u''))
          [Capture None None (js ''- main'') (js ''T'')
             [Ev (ConsoleEvent \<lparr>msgType = Some (js ''log''), msgText = js ''a''\<rparr>),
              Ev (DialogEvent (js ''alert'') (js ''hi'') 1), Resume, Resume],
           ClearModal 0,
           Capture None None (js ''- main'') (js ''T'')
             [Ev (ConsoleEvent \<lparr>msgType = None, msgText = js ''b''\<rparr>), Resume, Resume]])
       = [[], [\<lparr>msgType = Some (js ''log''), msgText = js ''a''\<rparr>,
               \<lparr>msgType = None, msgText = js ''b''\<rparr>]]"
proof -
  let ?E = "\<lambda>full selector. Inl (js ''Invalid regular expression'') :: jsstring + jsstring"
  let ?a = "\<lparr>msgType = Some (js ''log''), msgText = js ''a''\<rparr>"
  let ?b = "\<lparr>msgType = None, msgText = js ''b''\<rparr>"
  let ?d = "DialogEvent (js ''alert'') (js ''hi'') 1"
  let ?t0 = "newTab (js ''u'')"
  let ?pre = "[Ev (ConsoleEvent ?a), Resume, Ev (ConsoleEvent ?b), Resume]"
  have m0: "tab_modalStates ?t0 = []" by (simp add: newTab_def)
  have sel: "selectedText ?E None (js ''- main'') = Inr (js ''- main'')"
    by (simp add: selectedText_def)
  have bad: "selectedText ?E (Some (js ''main('')) (js ''- main'')
      = Inl (js ''Invalid regular expression'')"
    by (simp add: selectedText_def extractCall_def selectorToRole_def js_def)
  have q1: "quiet ?pre \<and> resumes ?pre = 2 \<and> last ?pre = Resume" by simp
  have q2: "quiet [Resume, Resume] \<and> resumes [Resume, Resume] = 2
      \<and> last [Resume, Resume] = Resume \<and> consoleTicks [Resume, Resume] = []"
    by (simp add: consoleTicks_def map_filter_simps)
  have q3: "quiet [Ev (ConsoleEvent ?a)] \<and> resumes [Ev (ConsoleEvent ?a)] < 2
      \<and> resumes [Ev (ConsoleEvent ?a)] = 0
      \<and> modalOf ?d = Some (DialogState (js ''alert'') (js ''hi'') 1)"
    by simp
  have r1: "tab_recentConsoleMessages (handleEvents (eventsOf ?pre) ?t0) = [?a, ?b]"
    by (simp add: newTab_def handleConsoleMessage_def)
  have r3: "tab_recentConsoleMessages
      (handleEvents (eventsOf [Ev (ConsoleEvent ?a)] @ [?d]) ?t0) = [?a]"
    by (simp add: newTab_def handleConsoleMessage_def setModalState_def)
  have r4: "tab_recentConsoleMessages
      (handleEvents (eventsOf [Ev (ConsoleEvent ?a)]) ?t0) = [?a]"
    by (simp add: newTab_def handleConsoleMessage_def)
  note th = capture_drains_recent_console [where t = ?t0 and engine = ?E
      and maxLength = None and full = "js ''- main''" and pageTitle = "js ''T''"]
  from th [where selector = None and pre = ?pre and post = "[]"
      and ?snapshot0.0 = "js ''- main''", THEN conjunct1] m0 q1 sel
  obtain snap t1 r where
    c: "captureSnapshotInternal ?E None None (js ''- main'') (js ''T'') ?t0 (?pre @ [])
          = Some (Inr snap, t1, r)"
      "consoleMessages snap = tab_recentConsoleMessages (handleEvents (eventsOf ?pre) ?t0)"
      "tab_recentConsoleMessages t1 = []"
    and nxt: "\<forall>pre2 post2 selector2 maxLength2 full2 pageTitle2 snapshot2.
            quiet pre2 \<and> resumes pre2 = 2 \<and> last pre2 = Resume \<and> consoleTicks pre2 = []
            \<and> selectedText ?E selector2 full2 = Inr snapshot2 \<longrightarrow>
            (\<exists>snap2 t2 r2.
               captureSnapshotInternal ?E selector2 maxLength2 full2 pageTitle2 t1
                   (pre2 @ post2)
                 = Some (Inr snap2, t2, r2)
             \<and> consoleMessages snap2 = [])"
    by blast
  from nxt [rule_format, of "[Resume, Resume]" None "js ''- main''" "js ''- main''"
      None "js ''T''" "[]"] q2 sel
  have n: "\<exists>snap2 t2 r2.
           captureSnapshotInternal ?E None None (js ''- main'') (js ''T'') t1
              ([Resume, Resume] @ []) = Some (Inr snap2, t2, r2)
         \<and> consoleMessages snap2 = []"
    by blast
  from c n r1 have first: "\<exists>snap t1 r.
       captureSnapshotInternal ?E None None (js ''- main'') (js ''T'') ?t0 (?pre @ [])
         = Some (Inr snap, t1, r)
     \<and> consoleMessages snap = [?a, ?b]
     \<and> tab_recentConsoleMessages t1 = []
     \<and> (\<exists>snap2 t2 r2.
           captureSnapshotInternal ?E None None (js ''- main'') (js ''T'') t1
              ([Resume, Resume] @ []) = Some (Inr snap2, t2, r2)
         \<and> consoleMessages snap2 = [])"
    by auto
  from th [where selector = None and pre = "[Ev (ConsoleEvent ?a)]" and e = ?d
      and m = "DialogState (js ''alert'') (js ''hi'') 1" and post = "[Resume, Resume]",
      THEN conjunct2, THEN conjunct1] m0 q3 r3
  have second: "\<exists>snap t1 r.
       captureSnapshotInternal ?E None None (js ''- main'') (js ''T'') ?t0
          ([Ev (ConsoleEvent ?a)] @ Ev ?d # [Resume, Resume])
         = Some (Inr snap, t1, r)
     \<and> modalStates snap = [DialogState (js ''alert'') (js ''hi'') 1]
     \<and> consoleMessages snap = []
     \<and> tab_recentConsoleMessages t1 = [?a]"
    by auto
  from th [where selector = "Some (js ''main('')" and pre = "[Ev (ConsoleEvent ?a)]"
      and err = "js ''Invalid regular expression''" and post = "[Resume]",
      THEN conjunct2, THEN conjunct2, THEN conjunct1] m0 q3 r4 bad
  have thrown: "\<exists>t1 r.
       captureSnapshotInternal ?E (Some (js ''main('')) None (js ''- main'') (js ''T'') ?t0
          ([Ev (ConsoleEvent ?a)] @ Resume # [Resume])
         = Some (Inl (js ''Invalid regular expression''), t1, r)
     \<and> tab_recentConsoleMessages t1 = [?a]"
    by auto
  have third: "map consoleMessages
        (session ?E ?t0
          [Capture None None (js ''- main'') (js ''T'')
             [Ev (ConsoleEvent ?a), Ev ?d, Resume, Resume],
           ClearModal 0,
           Capture None None (js ''- main'') (js ''T'')
             [Ev (ConsoleEvent ?b), Resume, Resume]])
       = [[], [?a, ?b]]"
    by (simp add: captureSnapshotInternal_def raceAgainstModalStates_def captureAction_def
        newTab_def newListener_def once_def off_def setModalState_def clearModalState_def
        handleConsoleMessage_def noCaptureVars_def selectedText_def limitedText_def Let_def)
  from first second thrown third show ?thesis by (intro conjI)
qed

section \<open>Properties of the navigation\<close>









section \<open>Properties of the navigation tracker\<close>

lemma navRun_append: "navRun T (xs @ ys) t = navRun T ys (navRun T xs t)"
  by (induction xs arbitrary: t) simp_all












section \<open>Properties of \<open>waitForNavigationComplete\<close>\<close>











end
